theory Spec2Isabelle
  imports Main
begin

unbundle bit_operations_syntax

section \<open>Python values and exceptions\<close>

text \<open>
  The program is \<^verbatim>\<open>qkd_demo.py\<close>. Python integers are unbounded and are modelled as
  \<open>int\<close>; a list index or a length is a \<open>nat\<close>. A Python string is the list of
  its code points; the digit strings that \<open>bin\<close> and \<open>str\<close> build contain ASCII
  characters only and are modelled as \<open>string\<close>.

  The program has no \<open>raise\<close> of its own. The exceptions below are the ones its
  expressions can raise: \<open>i % 0\<close>, an index out of range, and \<open>int\<close> or \<open>chr\<close>
  applied to a value they reject (\<open>chr\<close> raises OverflowError for an argument that
  does not fit a C int, ValueError for another one outside the code points).
\<close>

datatype py_error = ZeroDivisionError | IndexError | ValueError | OverflowError

type_synonym pystr = "nat list"

definition and_then :: "py_error + 'a \<Rightarrow> ('a \<Rightarrow> py_error + 'b) \<Rightarrow> py_error + 'b" where
  "and_then r f = (case r of Inl e \<Rightarrow> Inl e | Inr v \<Rightarrow> f v)"

text \<open>\<open>xs[i]\<close> for an index that is not negative.\<close>

definition py_index :: "'a list \<Rightarrow> nat \<Rightarrow> py_error + 'a" where
  "py_index xs i = (if i < length xs then Inr (xs ! i) else Inl IndexError)"

text \<open>\<open>a % b\<close> for operands that are not negative.\<close>

definition py_mod :: "nat \<Rightarrow> nat \<Rightarrow> py_error + nat" where
  "py_mod a b = (if b = 0 then Inl ZeroDivisionError else Inr (a mod b))"

text \<open>
  \<open>for i in xs: body\<close>, where the body updates the loop's variables \<open>s\<close> and may
  raise: the first exception leaves the loop.
\<close>

fun for_each :: "'i list \<Rightarrow> ('i \<Rightarrow> 's \<Rightarrow> py_error + 's) \<Rightarrow> 's \<Rightarrow> py_error + 's" where
  "for_each [] body s = Inr s"
| "for_each (i # is) body s = and_then (body i s) (for_each is body)"

text \<open>
  The list comprehension \<open>[f(i) for i in xs if cond(i)]\<close>; the condition is evaluated
  before the element, left to right along \<open>xs\<close>.
\<close>

fun list_comp :: "'i list \<Rightarrow> ('i \<Rightarrow> py_error + bool) \<Rightarrow> ('i \<Rightarrow> py_error + 'a) \<Rightarrow> py_error + 'a list" where
  "list_comp [] cond f = Inr []"
| "list_comp (i # is) cond f =
     and_then (cond i) (\<lambda>c.
       if c then and_then (f i) (\<lambda>v. and_then (list_comp is cond f) (\<lambda>vs. Inr (v # vs)))
       else list_comp is cond f)"

section \<open>The XOR cipher\<close>

text \<open>
  \<^verbatim>\<open>xor_bits\<close> (lines 150 to 154). The left operand \<open>bits[i]\<close> is evaluated
  first, then \<open>i % len(key)\<close>, then the index into \<open>key\<close>.
\<close>

definition xor_bits :: "int list \<Rightarrow> int list \<Rightarrow> py_error + int list" where
  "xor_bits bits key =
     for_each [0..<length bits]
       (\<lambda>i xor.
          and_then (py_index bits i) (\<lambda>x.
          and_then (py_mod i (length key)) (\<lambda>j.
          and_then (py_index key j) (\<lambda>k.
          Inr (xor @ [x XOR k])))))
       []"

section \<open>The text codec\<close>

text \<open>
  \<open>bin(n)\<close> for \<open>n \<ge> 0\<close> is \<open>0b\<close> followed by the binary digits of \<open>n\<close>, most
  significant first, with no leading zero (\<open>bin(0)\<close> is \<open>0b0\<close>). \<open>ord\<close> of a
  one-character string is its code point, which is what a \<open>pystr\<close> holds.
\<close>

fun bin_digits :: "nat \<Rightarrow> string" where
  "bin_digits n =
     (if n < 2 then [''01'' ! n] else bin_digits (n div 2) @ [''01'' ! (n mod 2)])"

declare bin_digits.simps [simp del]

definition bin :: "nat \<Rightarrow> string" where
  "bin n = ''0b'' @ bin_digits n"

definition ord :: "nat \<Rightarrow> nat" where
  "ord char = char"

text \<open>
  \<open>int(b)\<close> for a one-character string \<open>b\<close>: the value of a decimal digit, ValueError
  for another ASCII character.
\<close>

definition py_int :: "char \<Rightarrow> py_error + int" where
  "py_int b =
     (if List.member ''0123456789'' b then Inr (int (of_char b) - 48) else Inl ValueError)"

text \<open>
  \<^verbatim>\<open>string_to_bits\<close> (lines 157 to 163). \<open>'00000000'[len(bits):]\<close> is the empty
  string once \<open>bits\<close> has eight digits or more, so a longer digit string is kept whole.
\<close>

definition string_to_bits :: "pystr \<Rightarrow> py_error + int list" where
  "string_to_bits string =
     for_each string
       (\<lambda>char result.
          let bits = drop 2 (bin (ord char));
              bits = drop (length bits) ''00000000'' @ bits
          in and_then (list_comp bits (\<lambda>b. Inr True) py_int) (\<lambda>ds. Inr (result @ ds)))
       []"

text \<open>
  \<open>str(n)\<close> of an integer: its decimal digits, after a minus sign when it is negative.
  (Recent Python versions refuse to print an integer of more than 4300 digits; such
  elements are outside the model.)
\<close>

fun dec_digits :: "nat \<Rightarrow> string" where
  "dec_digits n =
     (if n < 10 then [''0123456789'' ! n]
      else dec_digits (n div 10) @ [''0123456789'' ! (n mod 10)])"

declare dec_digits.simps [simp del]

definition str :: "int \<Rightarrow> string" where
  "str n = (if n < 0 then CHR ''-'' # dec_digits (nat (- n)) else dec_digits (nat n))"

text \<open>
  \<open>int(s, 2)\<close> on a string of decimal digits and minus signs, the only characters a join
  of \<open>str\<close> of integers holds: an optional leading minus sign, then at least one digit,
  each 0 or 1. (Python also accepts a plus sign, blanks, underscores and a \<open>0b\<close> prefix,
  which cannot occur here.)
\<close>

definition int_base2 :: "string \<Rightarrow> py_error + int" where
  "int_base2 s =
     (let neg = (s \<noteq> [] \<and> hd s = CHR ''-'');
          ds = (if neg then tl s else s)
      in if ds = [] \<or> list_ex (\<lambda>c. c \<noteq> CHR ''0'' \<and> c \<noteq> CHR ''1'') ds then Inl ValueError
         else Inr ((if neg then - 1 else 1) *
                   foldl (\<lambda>acc c. 2 * acc + (if c = CHR ''1'' then 1 else 0)) 0 ds))"

text \<open>\<open>chr(n)\<close>, a one-character string.\<close>

definition chr :: "int \<Rightarrow> py_error + pystr" where
  "chr n =
     (if 0 \<le> n \<and> n < 1114112 then Inr [nat n]
      else if - 2147483648 \<le> n \<and> n \<le> 2147483647 then Inl ValueError
      else Inl OverflowError)"

text \<open>The slice \<open>xs[i:j]\<close> for \<open>0 \<le> i \<le> j\<close>; it stops at the end of the list.\<close>

definition slice :: "'a list \<Rightarrow> nat \<Rightarrow> nat \<Rightarrow> 'a list" where
  "slice xs i j = take (j - i) (drop i xs)"

text \<open>
  \<^verbatim>\<open>bits_to_string\<close> (lines 165 to 170). \<open>int(len(bits) / 8)\<close> divides as floating
  point and truncates, which for a length is \<open>len(bits) // 8\<close>.
\<close>

definition bits_to_string :: "int list \<Rightarrow> py_error + pystr" where
  "bits_to_string bits =
     and_then
       (for_each [0..<length bits div 8]
          (\<lambda>b chars.
             let byte = slice bits (b * 8) ((b + 1) * 8) in
             and_then (int_base2 (concat (map str byte))) (\<lambda>n.
             and_then (chr n) (\<lambda>c.
             Inr (chars @ [c]))))
          [])
       (\<lambda>chars. Inr (concat chars))"

section \<open>The circuit\<close>

text \<open>
  A circuit is built by appending operations; the model keeps them in the order they
  are appended. \<open>LineQubit(i)\<close> is the number \<open>i\<close>; \<open>X\<close> and \<open>H\<close> are the gates on a
  qubit, and \<open>measure_each\<close> yields one measurement for each qubit, whose key is the
  qubit's number as a string.
\<close>

datatype gate = X nat | H nat | Measure nat

type_synonym circuit = "gate list"

text \<open>\<^verbatim>\<open>build_b92_encoder\<close> (lines 184 to 190).\<close>

definition build_b92_encoder ::
  "circuit \<Rightarrow> nat list \<Rightarrow> int list \<Rightarrow> int list \<Rightarrow> py_error + circuit" where
  "build_b92_encoder circuit qubits bits basis =
     for_each [0..<length bits]
       (\<lambda>i circuit.
          and_then (py_index bits i) (\<lambda>bit.
          and_then (if bit = 1
                    then and_then (py_index qubits i) (\<lambda>q. Inr (circuit @ [X q]))
                    else Inr circuit) (\<lambda>circuit.
          and_then (py_index basis i) (\<lambda>base.
          if base = 1
          then and_then (py_index qubits i) (\<lambda>q. Inr (circuit @ [H q]))
          else Inr circuit))))
       circuit"

text \<open>\<^verbatim>\<open>build_b92_measurement\<close> (lines 192 to 197).\<close>

definition build_b92_measurement ::
  "circuit \<Rightarrow> nat list \<Rightarrow> int list \<Rightarrow> py_error + circuit" where
  "build_b92_measurement circuit qubits basis =
     and_then
       (for_each [0..<length basis]
          (\<lambda>i circuit.
             and_then (py_index basis i) (\<lambda>base.
             if base = 1
             then and_then (py_index qubits i) (\<lambda>q. Inr (circuit @ [H q]))
             else Inr circuit))
          circuit)
       (\<lambda>circuit. Inr (circuit @ map Measure qubits))"

text \<open>\<^verbatim>\<open>bb84_circuit\<close> (lines 172 to 182).\<close>

definition bb84_circuit :: "int list \<Rightarrow> int list \<Rightarrow> int list \<Rightarrow> py_error + circuit" where
  "bb84_circuit a_bits a_basis b_basis =
     (let qubits = [0..<length a_bits];
          circuit = []
      in and_then (build_b92_encoder circuit qubits a_bits a_basis) (\<lambda>circuit.
         build_b92_measurement circuit qubits b_basis))"

section \<open>The libraries: random numbers and the simulator\<close>

text \<open>
  numpy and cirq are not part of the program. What the program takes from them is a
  parameter of the model, over a state \<open>'w\<close> of everything outside the program (the
  generators of random numbers):
  \<^item> \<open>randint\<close> gives the bits of one call \<open>randint(2, size=n)\<close>, bit \<open>i\<close> of
    the array being 1 when the function it returns is true at \<open>i\<close>;
  \<^item> \<open>run\<close> gives the outcome of \<open>cirq.Simulator().run(circuit, repetitions)\<close>: for
    the key \<open>str(i)\<close>, whether qubit \<open>i\<close> was measured as 1.
  Both return the state they leave behind.
\<close>

type_synonym 'w randint = "'w \<Rightarrow> (nat \<Rightarrow> bool) \<times> 'w"

type_synonym 'w simulator = "'w \<Rightarrow> circuit \<Rightarrow> nat \<Rightarrow> (nat \<Rightarrow> bool) \<times> 'w"

definition np_randint :: "'w randint \<Rightarrow> nat \<Rightarrow> 'w \<Rightarrow> int list \<times> 'w" where
  "np_randint randint n w =
     (let (drawn, w') = randint w in (map (\<lambda>i. of_bool (drawn i)) [0..<n], w'))"

text \<open>
  A run of the simulator followed by
  \<open>[int(result.measurements[str(i)]) for i in range(key_size)]\<close> (lines 108 and 109, and
  again lines 119 and 120).
\<close>

definition run_and_read :: "'w simulator \<Rightarrow> circuit \<Rightarrow> nat \<Rightarrow> nat \<Rightarrow> 'w \<Rightarrow> int list \<times> 'w" where
  "run_and_read run circuit repetitions key_size w =
     (let (result, w') = run w circuit repetitions
      in (map (\<lambda>i. of_bool (result i)) [0..<key_size], w'))"

section \<open>The program\<close>

text \<open>What \<open>main\<close> prints, line by line.\<close>

datatype console_line =
    Input_Message pystr
  | Bit_Message "int list"
  | Line string
  | Diagram circuit
  | Alice_Encrypted "int list"
  | Bob_Decrypted "int list"
  | Bob_Received pystr

definition no_interference :: string where
  "no_interference = ''No interference detected!''"

definition interference :: string where
  "interference =
     ''Interference detected! Keys do not match!'' @ [CHR 0x0A] @ '' Continuing anyway!''"

text \<open>
  The key exchange of \<open>main\<close> (lines 97 to 122): the random draws, the circuit or the
  two circuits, and the measurements. It yields the lines printed, the state of the
  libraries, and \<open>a_bits\<close>, \<open>a_basis\<close>, \<open>b_basis\<close> and \<open>b_bits\<close>.
\<close>

definition key_exchange ::
  "nat \<Rightarrow> bool \<Rightarrow> nat \<Rightarrow> 'w randint \<Rightarrow> 'w simulator \<Rightarrow> 'w \<Rightarrow>
   console_line list \<times> 'w \<times> (py_error + int list \<times> int list \<times> int list \<times> int list)" where
  "key_exchange key_size eve repetitions randint run w0 =
     (let out = [Line ''Initiating Quantum Key Exchange''];
          (a_bits, w) = np_randint randint key_size w0;
          (a_basis, w) = np_randint randint key_size w;
          (b_basis, w) = np_randint randint key_size w;
          (out, w, built) =
            (if eve then
               (let (e_basis, w) = np_randint randint key_size w in
                case bb84_circuit a_bits a_basis e_basis of
                  Inl e \<Rightarrow> (out, w, Inl e)
                | Inr circuit \<Rightarrow>
                    (let out = out @ [Line ''Circuit 1/2: '', Diagram circuit];
                         (eve_bits, w) = run_and_read run circuit repetitions key_size w
                     in case bb84_circuit eve_bits e_basis b_basis of
                          Inl e \<Rightarrow> (out, w, Inl e)
                        | Inr circuit \<Rightarrow>
                            (out @ [Line ''Circuit 2/2: '', Diagram circuit], w, Inr circuit)))
             else
               (case bb84_circuit a_bits a_basis b_basis of
                  Inl e \<Rightarrow> (out, w, Inl e)
                | Inr circuit \<Rightarrow> (out @ [Line ''Circuit: '', Diagram circuit], w, Inr circuit)))
      in case built of
           Inl e \<Rightarrow> (out, w, Inl e)
         | Inr circuit \<Rightarrow>
             (let (b_bits, w) = run_and_read run circuit repetitions key_size w;
                  out = out @ [Line (''Quantum Key Exchange complete, sampling keys...'' @ [CHR 0x0A])]
              in (out, w, Inr (a_bits, a_basis, b_basis, b_bits))))"

text \<open>
  The sifting of \<open>main\<close> (lines 124 to 127): \<open>good_bits\<close>, \<open>a_key\<close> and \<open>b_key\<close>.
  \<open>not (a ^ b)\<close> holds when the XOR is 0.
\<close>

definition sift ::
  "int list \<Rightarrow> int list \<Rightarrow> int list \<Rightarrow> int list \<Rightarrow>
   py_error + nat list \<times> int list \<times> int list" where
  "sift a_bits a_basis b_bits b_basis =
     and_then
       (list_comp [0..<length a_basis]
          (\<lambda>i. and_then (py_index a_basis i) (\<lambda>a.
                and_then (py_index b_basis i) (\<lambda>b.
                Inr (\<not> (a XOR b \<noteq> 0)))))
          (\<lambda>i. Inr i)) (\<lambda>good_bits.
     and_then
       (list_comp [0..<length a_basis]
          (\<lambda>i. Inr (List.member good_bits i)) (\<lambda>i. py_index a_bits i)) (\<lambda>a_key.
     and_then
       (list_comp [0..<length b_basis]
          (\<lambda>i. Inr (List.member good_bits i)) (\<lambda>i. py_index b_bits i)) (\<lambda>b_key.
     Inr (good_bits, a_key, b_key))))"

text \<open>
  \<open>main\<close> (lines 91 to 145). An exception ends the run: \<open>raised\<close> holds it, and
  \<open>console\<close> the lines printed before it.
\<close>

record 'w outcome =
  console :: "console_line list"
  raised :: "py_error option"
  world :: 'w

definition main ::
  "pystr \<Rightarrow> nat \<Rightarrow> bool \<Rightarrow> nat \<Rightarrow> 'w randint \<Rightarrow> 'w simulator \<Rightarrow> 'w \<Rightarrow> 'w outcome" where
  "main msg key_size eve repetitions randint run w0 =
     (let out = [Input_Message msg] in
      case string_to_bits msg of
        Inl e \<Rightarrow> \<lparr>console = out, raised = Some e, world = w0\<rparr>
      | Inr bit_msg \<Rightarrow>
     (let out = out @ [Bit_Message bit_msg] in
      case key_exchange key_size eve repetitions randint run w0 of
        (printed, w, Inl e) \<Rightarrow> \<lparr>console = out @ printed, raised = Some e, world = w\<rparr>
      | (printed, w, Inr (a_bits, a_basis, b_basis, b_bits)) \<Rightarrow>
     (let out = out @ printed in
      case sift a_bits a_basis b_bits b_basis of
        Inl e \<Rightarrow> \<lparr>console = out, raised = Some e, world = w\<rparr>
      | Inr (good_bits, a_key, b_key) \<Rightarrow>
     (let out = out @ [Line (if a_key = b_key then no_interference else interference)] in
      case xor_bits bit_msg a_key of
        Inl e \<Rightarrow> \<lparr>console = out, raised = Some e, world = w\<rparr>
      | Inr encrypted \<Rightarrow>
     (let out = out @ [Alice_Encrypted encrypted] in
      case xor_bits encrypted b_key of
        Inl e \<Rightarrow> \<lparr>console = out, raised = Some e, world = w\<rparr>
      | Inr decrypted \<Rightarrow>
     (let out = out @ [Bob_Decrypted decrypted] in
      case bits_to_string decrypted of
        Inl e \<Rightarrow> \<lparr>console = out, raised = Some e, world = w\<rparr>
      | Inr received \<Rightarrow>
          \<lparr>console = out @ [Bob_Received received], raised = None, world = w\<rparr>))))))"


section \<open>Notions used in the statements\<close>

text \<open>A bit is the integer 0 or 1.\<close>

definition is_bit :: "int \<Rightarrow> bool" where
  "is_bit b = (b = 0 \<or> b = 1)"

text \<open>The value of a binary digit, and of a list of bits read most significant first.\<close>

definition bit_value :: "char \<Rightarrow> int" where
  "bit_value c = (if c = CHR ''1'' then 1 else 0)"

definition bits_value :: "int list \<Rightarrow> int" where
  "bits_value bs = foldl (\<lambda>acc b. 2 * acc + b) 0 bs"

text \<open>
  The group of bits that stands for one character: its binary digits, after as many
  zeros as bring them to eight.
\<close>

definition encode_char :: "nat \<Rightarrow> int list" where
  "encode_char c = replicate (8 - length (bin_digits c)) 0 @ map bit_value (bin_digits c)"

text \<open>The code point that a group of bits stands for.\<close>

definition decode_byte :: "int list \<Rightarrow> nat" where
  "decode_byte byte = nat (bits_value byte)"

text \<open>
  The operations of the circuit that \<open>bb84_circuit\<close> builds from sequences of one
  length: for each qubit of the encoder an \<open>X\<close> where the bit is 1 and an \<open>H\<close> where
  the sender's basis is 1, then an \<open>H\<close> where the receiver's basis is 1, then the
  measurements.
\<close>

definition bb84_gates :: "int list \<Rightarrow> int list \<Rightarrow> int list \<Rightarrow> circuit" where
  "bb84_gates a_bits a_basis b_basis =
     concat (map (\<lambda>i. (if a_bits ! i = 1 then [X i] else []) @
                      (if a_basis ! i = 1 then [H i] else [])) [0..<length a_bits]) @
     concat (map (\<lambda>i. if b_basis ! i = 1 then [H i] else []) [0..<length b_basis]) @
     map Measure [0..<length a_bits]"

text \<open>
  An ideal noiseless channel: for bits sent in one basis and measured in another, every
  qubit whose two bases are equal is measured as the bit sent.
\<close>

definition noiseless :: "'w simulator \<Rightarrow> bool" where
  "noiseless run =
     (\<forall>w bits sender_basis receiver_basis circuit repetitions i.
        list_all is_bit bits \<and> length sender_basis = length bits \<and>
        length receiver_basis = length bits \<and>
        bb84_circuit bits sender_basis receiver_basis = Inr circuit \<and>
        i < length bits \<and> sender_basis ! i = receiver_basis ! i
        \<longrightarrow> of_bool (fst (run w circuit repetitions) i) = bits ! i)"

text \<open>Printable ASCII: the code points 32 to 126.\<close>

definition printable_ascii :: "pystr \<Rightarrow> bool" where
  "printable_ascii msg = list_all (\<lambda>c. 32 \<le> c \<and> c \<le> 126) msg"

section \<open>Stand-ins for the libraries\<close>

text \<open>
  Deterministic stand-ins, for running the program on concrete inputs. Their state is the
  number of calls of \<open>randint\<close> so far and the circuits given to the simulator so far.
  \<open>scripted_randint script\<close> answers call \<open>n\<close> with the bits \<open>script n\<close>.
  \<open>ideal_run\<close> measures every qubit as the bit it encodes (1 where the circuit has an
  \<open>X\<close> on it), whatever the bases; \<open>flipped_run\<close> measures the opposite bit.
\<close>

definition scripted_randint :: "(nat \<Rightarrow> nat \<Rightarrow> bool) \<Rightarrow> (nat \<times> circuit list) randint" where
  "scripted_randint script = (\<lambda>(n, runs). (script n, (Suc n, runs)))"

definition ideal_run :: "(nat \<times> circuit list) simulator" where
  "ideal_run = (\<lambda>(n, runs) circuit repetitions. (\<lambda>i. List.member circuit (X i), (n, runs @ [circuit])))"

definition flipped_run :: "(nat \<times> circuit list) simulator" where
  "flipped_run = (\<lambda>(n, runs) circuit repetitions. (\<lambda>i. \<not> List.member circuit (X i), (n, runs @ [circuit])))"

text \<open>
  Two scripts. With \<open>bases_differ\<close>, \<open>a_bits\<close> and \<open>a_basis\<close> are all 0 and
  \<open>b_basis\<close> is all 1. With \<open>diagonal\<close>, call \<open>n\<close> has its 1 at position \<open>n\<close>.
\<close>

definition bases_differ :: "nat \<Rightarrow> nat \<Rightarrow> bool" where
  "bases_differ n i = (n = 2)"

definition diagonal :: "nat \<Rightarrow> nat \<Rightarrow> bool" where
  "diagonal n i = (n = i)"

section \<open>Loops that do not raise\<close>

lemma and_then_Inr [simp]: "and_then (Inr v) f = f v"
  by (simp add: and_then_def)

lemma and_then_Inl [simp]: "and_then (Inl e) f = Inl e"
  by (simp add: and_then_def)

lemma for_each_pure:
  assumes "\<And>i s. i \<in> set xs \<Longrightarrow> body i s = Inr (g i s)"
  shows "for_each xs body s = Inr (fold g xs s)"
  using assms by (induction xs arbitrary: s) simp_all

lemma fold_snoc_map: "fold (\<lambda>i acc. acc @ [h i]) xs acc = acc @ map h xs"
  by (induction xs arbitrary: acc) simp_all

lemma fold_append_concat: "fold (\<lambda>i acc. acc @ h i) xs acc = acc @ concat (map h xs)"
  by (induction xs arbitrary: acc) simp_all

lemma and_then_eq_Inr: "and_then r f = Inr v \<longleftrightarrow> (\<exists>u. r = Inr u \<and> f u = Inr v)"
  by (cases r) simp_all

lemma list_comp_pure:
  assumes "\<And>i. i \<in> set xs \<Longrightarrow> cond i = Inr (p i)"
      and "\<And>i. i \<in> set xs \<Longrightarrow> p i \<Longrightarrow> f i = Inr (g i)"
  shows "list_comp xs cond f = Inr (map g (filter p xs))"
  using assms by (induction xs) simp_all

section \<open>The XOR cipher: results\<close>

lemma xor_bits_nonempty_key:
  assumes "key \<noteq> []"
  shows "xor_bits bits key =
         Inr (map (\<lambda>i. bits ! i XOR key ! (i mod length key)) [0..<length bits])"
proof -
  let ?h = "\<lambda>i. bits ! i XOR key ! (i mod length key)"
  have "for_each [0..<length bits]
          (\<lambda>i xor.
             and_then (py_index bits i) (\<lambda>x.
             and_then (py_mod i (length key)) (\<lambda>j.
             and_then (py_index key j) (\<lambda>k.
             Inr (xor @ [x XOR k])))))
          [] = Inr (fold (\<lambda>i acc. acc @ [?h i]) [0..<length bits] [])"
    using assms by (intro for_each_pure) (simp add: py_index_def py_mod_def)
  then show ?thesis
    by (simp add: xor_bits_def fold_snoc_map)
qed

lemma xor_bits_empty_key:
  assumes "bits \<noteq> []"
  shows "xor_bits bits [] = Inl ZeroDivisionError"
proof -
  from assms have "[0..<length bits] = 0 # [1..<length bits]"
    by (simp add: upt_conv_Cons)
  then show ?thesis
    using assms by (simp add: xor_bits_def py_index_def py_mod_def)
qed

lemma xor_bits_empty_bits: "xor_bits [] key = Inr []"
  by (simp add: xor_bits_def)

lemma xor_cancel_int: "((a::int) XOR k) XOR k = a"
  by (simp add: xor.assoc)

lemma xor_eq_0_iff_int: "(a::int) XOR b = 0 \<longleftrightarrow> a = b"
proof
  assume h: "a XOR b = 0"
  have "a = (a XOR b) XOR b" by (simp add: xor.assoc)
  with h show "a = b" by simp
qed simp

lemma xor_bits_twice:
  assumes "k \<noteq> []"
  shows "and_then (xor_bits b k) (\<lambda>c. xor_bits c k) = Inr b"
proof -
  let ?c = "map (\<lambda>i. b ! i XOR k ! (i mod length k)) [0..<length b]"
  have "map (\<lambda>i. ?c ! i XOR k ! (i mod length k)) [0..<length ?c] = b"
    by (rule nth_equalityI) (simp_all add: xor_cancel_int)
  with assms show ?thesis
    by (simp add: xor_bits_nonempty_key)
qed

section \<open>Sifting: results\<close>

lemma sift_ok:
  assumes "length a_basis = length b_basis" "length a_bits = length b_bits" "length a_basis \<le> length a_bits"
  shows "sift a_bits a_basis b_bits b_basis =
     Inr (filter (\<lambda>i. a_basis ! i = b_basis ! i) [0..<length a_basis],
          map (\<lambda>i. a_bits ! i) (filter (\<lambda>i. a_basis ! i = b_basis ! i) [0..<length a_basis]),
          map (\<lambda>i. b_bits ! i) (filter (\<lambda>i. a_basis ! i = b_basis ! i) [0..<length a_basis]))"
proof -
  let ?n = "length a_basis"
  let ?p = "\<lambda>i. a_basis ! i = b_basis ! i"
  let ?good = "filter ?p [0..<?n]"
  have g: "list_comp [0..<?n]
          (\<lambda>i. and_then (py_index a_basis i) (\<lambda>a.
                and_then (py_index b_basis i) (\<lambda>b.
                Inr (\<not> (a XOR b \<noteq> 0)))))
          (\<lambda>i. Inr i) = Inr (map (\<lambda>i. i) ?good)"
    using assms by (intro list_comp_pure) (simp_all add: py_index_def xor_eq_0_iff_int)
  have mem: "\<And>i. i \<in> set [0..<?n] \<Longrightarrow> List.member ?good i = ?p i"
    by (simp add: )
  have a: "list_comp [0..<?n] (\<lambda>i. Inr (List.member ?good i)) (\<lambda>i. py_index a_bits i)
           = Inr (map (\<lambda>i. a_bits ! i) ?good)"
    using assms mem by (intro list_comp_pure) (simp_all add: py_index_def)
  have b: "list_comp [0..<length b_basis] (\<lambda>i. Inr (List.member ?good i)) (\<lambda>i. py_index b_bits i)
           = Inr (map (\<lambda>i. b_bits ! i) ?good)"
    unfolding assms(1) [symmetric]
    using assms mem by (intro list_comp_pure) (simp_all add: py_index_def)
  show ?thesis
    by (simp only: sift_def g a b and_then_Inr list.map_ident)
qed

lemma sift_keys:
  assumes "length a_bits = n" "length a_basis = n" "length b_basis = n" "length b_bits = n"
  shows "\<exists>good_bits a_key b_key.
     sift a_bits a_basis b_bits b_basis = Inr (good_bits, a_key, b_key) \<and>
     good_bits = filter (\<lambda>i. a_basis ! i = b_basis ! i) [0..<n] \<and>
     a_key = map (\<lambda>i. a_bits ! i) good_bits \<and> b_key = map (\<lambda>i. b_bits ! i) good_bits"
  using sift_ok [of a_basis b_basis a_bits b_bits] assms by simp

lemma map_nth_filter_upt:
  "map (\<lambda>i. xs ! i) (filter P [0..<length xs]) = nths xs {i. P i}"
proof (induction xs rule: rev_induct)
  case Nil
  show ?case by simp
next
  case (snoc x xs)
  have "map (\<lambda>i. (xs @ [x]) ! i) (filter P [0..<length xs]) =
        map (\<lambda>i. xs ! i) (filter P [0..<length xs])"
    by (rule map_cong) (simp_all add: nth_append)
  with snoc show ?case
    by (simp add: nths_append)
qed

lemma map_nth_filter_upt_le:
  assumes "n \<le> length xs"
  shows "map (\<lambda>i. xs ! i) (filter P [0..<n]) = nths xs {i. i < n \<and> P i}"
proof -
  from assms have "[0..<length xs] = [0..<n] @ [n..<length xs]"
    by (metis le_add_diff_inverse upt_add_eq_append zero_le)
  moreover have "filter (\<lambda>i. i < n \<and> P i) [0..<n] = filter P [0..<n]"
    by (rule filter_cong) simp_all
  ultimately have "filter (\<lambda>i. i < n \<and> P i) [0..<length xs] = filter P [0..<n]"
    by simp
  with map_nth_filter_upt [of xs "\<lambda>i. i < n \<and> P i"] show ?thesis
    by simp
qed

lemma length_filter_upt: "length (filter P [0..<n]) = card {i. i < n \<and> P i}"
proof -
  have "distinct (filter P [0..<n])"
    by simp
  then have "length (filter P [0..<n]) = card (set (filter P [0..<n]))"
    by (rule distinct_card [symmetric])
  also have "set (filter P [0..<n]) = {i. i < n \<and> P i}"
    by auto
  finally show ?thesis .
qed

section \<open>The text codec: results\<close>

lemma bin_digits_binary: "c \<in> set (bin_digits n) \<Longrightarrow> c = CHR ''0'' \<or> c = CHR ''1''"
proof (induction n rule: bin_digits.induct)
  case (1 n)
  show ?case
  proof (cases "n < 2")
    case True
    then have "n = 0 \<or> n = 1" by auto
    with "1.prems" show ?thesis
      by (auto simp: bin_digits.simps [of n] bin_digits.simps [of 0] bin_digits.simps [of 1])
  next
    case False
    have "n mod 2 = 0 \<or> n mod 2 = 1" by auto
    with False "1.prems" "1.IH" show ?thesis
      by (auto simp: bin_digits.simps [of n])
  qed
qed

lemma py_int_binary: "c = CHR ''0'' \<or> c = CHR ''1'' \<Longrightarrow> py_int c = Inr (bit_value c)"
  by (auto simp: py_int_def bit_value_def)

lemma pad_zeros: "drop n ''00000000'' = replicate (8 - n) (CHR ''0'')"
proof -
  have "''00000000'' = replicate 8 (CHR ''0'')"
    by (simp add: numeral_eq_Suc)
  then show ?thesis by simp
qed

lemma string_to_bits_encode: "string_to_bits s = Inr (concat (map encode_char s))"
proof -
  have body: "(let bits = drop 2 (bin (ord char));
              bits = drop (length bits) ''00000000'' @ bits
          in and_then (list_comp bits (\<lambda>b. Inr True) py_int) (\<lambda>ds. Inr (result @ ds)))
        = Inr (result @ encode_char char)" for char result
  proof -
    let ?ds = "replicate (8 - length (bin_digits char)) (CHR ''0'') @ bin_digits char"
    have "list_comp ?ds (\<lambda>b. Inr True) py_int = Inr (map bit_value (filter (\<lambda>b. True) ?ds))"
      by (intro list_comp_pure py_int_binary) (auto dest: bin_digits_binary)
    then show ?thesis
      by (simp add: Let_def bin_def ord_def pad_zeros encode_char_def bit_value_def)
  qed
  have "for_each s
       (\<lambda>char result.
          let bits = drop 2 (bin (ord char));
              bits = drop (length bits) ''00000000'' @ bits
          in and_then (list_comp bits (\<lambda>b. Inr True) py_int) (\<lambda>ds. Inr (result @ ds)))
       [] = Inr (fold (\<lambda>char result. result @ encode_char char) s [])"
    by (intro for_each_pure body)
  then show ?thesis
    by (simp add: string_to_bits_def fold_append_concat)
qed

lemma bits_value_snoc: "bits_value (bs @ [b]) = 2 * bits_value bs + b"
  by (simp add: bits_value_def)

lemma bits_value_zeros: "bits_value (replicate k 0 @ bs) = bits_value bs"
proof -
  have "foldl (\<lambda>acc b. 2 * acc + b) 0 (replicate k 0) = (0::int)"
    by (induction k) simp_all
  then show ?thesis by (simp add: bits_value_def)
qed

lemma bits_value_bin_digits: "bits_value (map bit_value (bin_digits n)) = int n"
proof (induction n rule: bin_digits.induct)
  case (1 n)
  show ?case
  proof (cases "n < 2")
    case True
    then have "n = 0 \<or> n = 1" by auto
    then show ?thesis
      by (auto simp: bin_digits.simps [of 0] bin_digits.simps [of "Suc 0"] bits_value_def bit_value_def)
  next
    case False
    have "bit_value (''01'' ! (n mod 2)) = int (n mod 2)"
      using mod_2_eq_odd [of n] by (cases "odd n") (simp_all add: bit_value_def)
    with False "1.IH" show ?thesis
      by (simp add: bin_digits.simps [of n] bits_value_snoc) presburger
  qed
qed

lemma length_bin_digits_le: "n < 2 ^ k \<Longrightarrow> 0 < k \<Longrightarrow> length (bin_digits n) \<le> k"
proof (induction n arbitrary: k rule: bin_digits.induct)
  case (1 n)
  show ?case
  proof (cases "n < 2")
    case True
    with "1.prems" show ?thesis by (simp add: bin_digits.simps [of n])
  next
    case False
    with "1.prems" obtain j where k: "k = Suc j" by (cases k) auto
    with False "1.prems" have "0 < j" by (cases j) auto
    moreover from k "1.prems" have "n div 2 < 2 ^ j" by auto
    ultimately have "length (bin_digits (n div 2)) \<le> j"
      using False "1.IH" by simp
    with False k show ?thesis by (simp add: bin_digits.simps [of n])
  qed
qed

lemma length_bin_digits_gt: "2 ^ k \<le> n \<Longrightarrow> k < length (bin_digits n)"
proof (induction n arbitrary: k rule: bin_digits.induct)
  case (1 n)
  show ?case
  proof (cases "n < 2")
    case True
    have "k = 0"
    proof (rule ccontr)
      assume "k \<noteq> 0"
      then have "(2::nat) ^ 1 \<le> 2 ^ k"
        by (intro power_increasing) simp_all
      with True "1.prems" show False by simp
    qed
    then show ?thesis by (simp add: bin_digits.simps [of n])
  next
    case False
    show ?thesis
    proof (cases k)
      case 0
      then show ?thesis by (simp add: bin_digits.simps [of n])
    next
      case (Suc j)
      with "1.prems" have "2 ^ j \<le> n div 2" by auto
      with False "1.IH" have "j < length (bin_digits (n div 2))" by simp
      with False Suc show ?thesis by (simp add: bin_digits.simps [of n])
    qed
  qed
qed

lemma length_encode_char: "c < 256 \<Longrightarrow> length (encode_char c) = 8"
  using length_bin_digits_le [of c 8] by (simp add: encode_char_def)

lemma length_encode_char_big: "256 \<le> c \<Longrightarrow> 8 < length (encode_char c)"
  using length_bin_digits_gt [of 8 c] by (simp add: encode_char_def)

lemma length_encode_char_ge: "8 \<le> length (encode_char c)"
  by (simp add: encode_char_def)

lemma bits_value_encode_char: "bits_value (encode_char c) = int c"
  by (simp add: encode_char_def bits_value_zeros bits_value_bin_digits)

lemma encode_char_bits: "list_all is_bit (encode_char c)"
  by (auto simp: encode_char_def list_all_iff is_bit_def bit_value_def)

lemma str_bit: "is_bit b \<Longrightarrow> str b = [if b = 1 then CHR ''1'' else CHR ''0'']"
  by (auto simp: is_bit_def str_def dec_digits.simps [of 0] dec_digits.simps [of "Suc 0"] dec_digits.simps [of 1])

lemma join_str_bits:
  "list_all is_bit byte \<Longrightarrow> concat (map str byte) = map (\<lambda>b. if b = 1 then CHR ''1'' else CHR ''0'') byte"
  by (induction byte) (simp_all add: str_bit)

lemma foldl_bit_chars:
  "list_all is_bit byte \<Longrightarrow>
   foldl (\<lambda>acc c. 2 * acc + (if c = CHR ''1'' then 1 else 0)) a
     (map (\<lambda>b. if b = 1 then CHR ''1'' else CHR ''0'') byte) =
   foldl (\<lambda>acc b. 2 * acc + b) (a::int) byte"
  by (induction byte arbitrary: a) (auto simp: is_bit_def)

lemma int_base2_bits:
  assumes "list_all is_bit byte" "byte \<noteq> []"
  shows "int_base2 (concat (map str byte)) = Inr (bits_value byte)"
proof -
  let ?s = "map (\<lambda>b. if b = 1 then CHR ''1'' else CHR ''0'') byte"
  from assms(2) have "?s \<noteq> []" "hd ?s \<noteq> CHR ''-''"
    by (cases byte; simp)+
  moreover have "\<not> list_ex (\<lambda>c. c \<noteq> CHR ''0'' \<and> c \<noteq> CHR ''1'') ?s"
    by (auto simp: list_ex_iff)
  ultimately have "int_base2 ?s = Inr (bits_value byte)"
    using assms(1) by (simp add: int_base2_def foldl_bit_chars bits_value_def)
  with assms(1) show ?thesis by (simp add: join_str_bits)
qed

lemma bits_value_bounds:
  "list_all is_bit byte \<Longrightarrow> 0 \<le> bits_value byte \<and> bits_value byte < 2 ^ length byte"
proof (induction byte rule: rev_induct)
  case Nil
  show ?case by (simp add: bits_value_def)
next
  case (snoc b byte)
  then show ?case by (auto simp: bits_value_snoc is_bit_def)
qed

lemma chr_byte:
  assumes "list_all is_bit byte" "length byte = 8"
  shows "chr (bits_value byte) = Inr [decode_byte byte]"
  using bits_value_bounds [OF assms(1)] assms(2) by (simp add: chr_def decode_byte_def)

lemma length_slice: "j \<le> length xs \<Longrightarrow> length (slice xs i j) = j - i"
  by (simp add: slice_def)

lemma slice_bits: "list_all P xs \<Longrightarrow> list_all P (slice xs i j)"
  by (auto simp: slice_def list_all_iff dest: in_set_takeD in_set_dropD)

lemma bits_to_string_bits:
  assumes "list_all is_bit bits"
  shows "bits_to_string bits =
         Inr (map (\<lambda>b. decode_byte (slice bits (b * 8) ((b + 1) * 8))) [0..<length bits div 8])"
proof -
  let ?byte = "\<lambda>b. slice bits (b * 8) ((b + 1) * 8)"
  have body: "(let byte = ?byte b in
             and_then (int_base2 (concat (map str byte))) (\<lambda>n.
             and_then (chr n) (\<lambda>c.
             Inr (chars @ [c])))) = Inr (chars @ [[decode_byte (?byte b)]])"
    if "b \<in> set [0..<length bits div 8]" for b chars
  proof -
    from that have "(b + 1) * 8 \<le> length bits" by auto
    then have len: "length (?byte b) = 8" by (simp add: length_slice)
    then have ne: "?byte b \<noteq> []" by auto
    have bits: "list_all is_bit (?byte b)" using assms by (rule slice_bits)
    show ?thesis
      by (simp only: Let_def int_base2_bits [OF bits ne] chr_byte [OF bits len] and_then_Inr)
  qed
  have "for_each [0..<length bits div 8]
          (\<lambda>b chars.
             let byte = slice bits (b * 8) ((b + 1) * 8) in
             and_then (int_base2 (concat (map str byte))) (\<lambda>n.
             and_then (chr n) (\<lambda>c.
             Inr (chars @ [c]))))
          [] = Inr (fold (\<lambda>b chars. chars @ [[decode_byte (?byte b)]]) [0..<length bits div 8] [])"
    by (intro for_each_pure body)
  then show ?thesis
    by (simp add: bits_to_string_def fold_snoc_map comp_def)
qed

lemma slice_concat_chunks:
  assumes "\<forall>c \<in> set chunks. length c = 8" "b < length chunks"
  shows "slice (concat chunks @ rest) (b * 8) ((b + 1) * 8) = chunks ! b"
  using assms
proof (induction chunks arbitrary: b)
  case Nil
  then show ?case by simp
next
  case (Cons c chunks)
  show ?case
  proof (cases b)
    case 0
    with Cons.prems show ?thesis by (simp add: slice_def)
  next
    case (Suc b')
    with Cons.prems have "slice (concat chunks @ rest) (b' * 8) ((b' + 1) * 8) = chunks ! b'"
      by (intro Cons.IH) simp_all
    with Cons.prems Suc show ?thesis by (simp add: slice_def)
  qed
qed

lemma length_concat_chunks:
  "\<forall>c \<in> set chunks. length c = 8 \<Longrightarrow> length (concat chunks) = 8 * length chunks"
  by (induction chunks) simp_all

lemma bits_to_string_chunks:
  assumes "\<forall>c \<in> set chunks. length c = 8 \<and> list_all is_bit c" "list_all is_bit rest" "length rest < 8"
  shows "bits_to_string (concat chunks @ rest) = Inr (map decode_byte chunks)"
proof -
  from assms(1) have len: "\<forall>c \<in> set chunks. length c = 8" by simp
  have "list_all is_bit (concat chunks @ rest)"
    using assms(1,2) by (auto simp: list_all_iff)
  then have "bits_to_string (concat chunks @ rest) =
      Inr (map (\<lambda>b. decode_byte (slice (concat chunks @ rest) (b * 8) ((b + 1) * 8)))
             [0..<length (concat chunks @ rest) div 8])"
    by (rule bits_to_string_bits)
  also have "length (concat chunks @ rest) div 8 = length chunks"
    using assms(3) by (simp add: length_concat_chunks [OF len])
  also have "map (\<lambda>b. decode_byte (slice (concat chunks @ rest) (b * 8) ((b + 1) * 8))) [0..<length chunks]
           = map (\<lambda>b. decode_byte (chunks ! b)) [0..<length chunks]"
  proof (rule map_cong [OF refl])
    fix b assume "b \<in> set [0..<length chunks]"
    then have "b < length chunks" by simp
    then show "decode_byte (slice (concat chunks @ rest) (b * 8) ((b + 1) * 8)) = decode_byte (chunks ! b)"
      by (simp only: slice_concat_chunks [OF len])
  qed
  also have "\<dots> = map decode_byte chunks"
    by (rule nth_equalityI) simp_all
  finally show ?thesis .
qed

lemma decode_encode: 
  assumes "\<forall>c \<in> set s. c \<le> 255"
  shows "and_then (string_to_bits s) bits_to_string = Inr s"
proof -
  have "\<forall>c \<in> set (map encode_char s). length c = 8 \<and> list_all is_bit c"
    using assms by (auto simp: length_encode_char encode_char_bits)
  then have "bits_to_string (concat (map encode_char s) @ []) = Inr (map decode_byte (map encode_char s))"
    by (rule bits_to_string_chunks) simp_all
  moreover have "map decode_byte (map encode_char s) = s"
    by (induction s) (simp_all add: decode_byte_def bits_value_encode_char)
  ultimately show ?thesis
    by (simp add: string_to_bits_encode)
qed

section \<open>The circuit and the key exchange: results\<close>

lemma build_b92_encoder_gates:
  assumes "length bits \<le> length basis"
  shows "build_b92_encoder circuit [0..<length bits] bits basis =
         Inr (circuit @ concat (map (\<lambda>i. (if bits ! i = 1 then [X i] else []) @
                                         (if basis ! i = 1 then [H i] else [])) [0..<length bits]))"
proof -
  let ?g = "\<lambda>i. (if bits ! i = 1 then [X i] else []) @ (if basis ! i = 1 then [H i] else [])"
  have "for_each [0..<length bits]
       (\<lambda>i circuit.
          and_then (py_index bits i) (\<lambda>bit.
          and_then (if bit = 1
                    then and_then (py_index [0..<length bits] i) (\<lambda>q. Inr (circuit @ [X q]))
                    else Inr circuit) (\<lambda>circuit.
          and_then (py_index basis i) (\<lambda>base.
          if base = 1
          then and_then (py_index [0..<length bits] i) (\<lambda>q. Inr (circuit @ [H q]))
          else Inr circuit))))
       circuit = Inr (fold (\<lambda>i circuit. circuit @ ?g i) [0..<length bits] circuit)"
    using assms by (intro for_each_pure) (simp add: py_index_def)
  then show ?thesis
    by (simp only: build_b92_encoder_def fold_append_concat)
qed

lemma build_b92_measurement_gates:
  assumes "length basis \<le> n"
  shows "build_b92_measurement circuit [0..<n] basis =
         Inr (circuit @ concat (map (\<lambda>i. if basis ! i = 1 then [H i] else []) [0..<length basis]) @
              map Measure [0..<n])"
proof -
  let ?g = "\<lambda>i. if basis ! i = 1 then [H i] else []"
  have "for_each [0..<length basis]
          (\<lambda>i circuit.
             and_then (py_index basis i) (\<lambda>base.
             if base = 1
             then and_then (py_index [0..<n] i) (\<lambda>q. Inr (circuit @ [H q]))
             else Inr circuit))
          circuit = Inr (fold (\<lambda>i circuit. circuit @ ?g i) [0..<length basis] circuit)"
    using assms by (intro for_each_pure) (simp add: py_index_def)
  then show ?thesis
    by (simp only: build_b92_measurement_def fold_append_concat and_then_Inr append_assoc)
qed

lemma bb84_circuit_gates:
  assumes "length a_bits \<le> length a_basis" "length b_basis \<le> length a_bits"
  shows "bb84_circuit a_bits a_basis b_basis = Inr (bb84_gates a_bits a_basis b_basis)"
  by (simp only: bb84_circuit_def Let_def build_b92_encoder_gates [OF assms(1)] and_then_Inr
        build_b92_measurement_gates [OF assms(2)] bb84_gates_def append_Nil)

lemma X_in_bb84_gates:
  "X i \<in> set (bb84_gates a_bits a_basis b_basis) \<longleftrightarrow> i < length a_bits \<and> a_bits ! i = 1"
  by (auto simp: bb84_gates_def split: if_splits)

lemma np_randint_bits:
  assumes "np_randint randint n w = (xs, w')"
  shows "length xs = n \<and> list_all is_bit xs"
  using assms by (auto simp: np_randint_def is_bit_def list_all_iff split: prod.splits)

lemma run_and_read_bits:
  assumes "run_and_read run circuit repetitions n w = (xs, w')"
  shows "length xs = n \<and> list_all is_bit xs"
  using assms by (auto simp: run_and_read_def is_bit_def list_all_iff split: prod.splits)

lemma key_exchange_eve:
  assumes d1: "np_randint randint key_size w0 = (a_bits, w1)"
      and d2: "np_randint randint key_size w1 = (a_basis, w2)"
      and d3: "np_randint randint key_size w2 = (b_basis, w3)"
      and d4: "np_randint randint key_size w3 = (e_basis, w4)"
      and r1: "run w4 (bb84_gates a_bits a_basis e_basis) repetitions = (result1, w5)"
      and r2: "run w5 (bb84_gates (map (\<lambda>i. of_bool (result1 i)) [0..<key_size]) e_basis b_basis) repetitions = (result2, w6)"
  shows "bb84_circuit a_bits a_basis e_basis = Inr (bb84_gates a_bits a_basis e_basis)"
    and "bb84_circuit (map (\<lambda>i. of_bool (result1 i)) [0..<key_size]) e_basis b_basis =
           Inr (bb84_gates (map (\<lambda>i. of_bool (result1 i)) [0..<key_size]) e_basis b_basis)"
    and "key_exchange key_size True repetitions randint run w0 =
      ([Line ''Initiating Quantum Key Exchange'',
        Line ''Circuit 1/2: '', Diagram (bb84_gates a_bits a_basis e_basis),
        Line ''Circuit 2/2: '',
        Diagram (bb84_gates (map (\<lambda>i. of_bool (result1 i)) [0..<key_size]) e_basis b_basis),
        Line (''Quantum Key Exchange complete, sampling keys...'' @ [CHR 0x0A])],
       w6,
       Inr (a_bits, a_basis, b_basis, map (\<lambda>i. of_bool (result2 i)) [0..<key_size]))"
proof -
  let ?eve_bits = "map (\<lambda>i. of_bool (result1 i)) [0..<key_size] :: int list"
  note len = np_randint_bits [OF d1] np_randint_bits [OF d2] np_randint_bits [OF d3]
    np_randint_bits [OF d4]
  show c1: "bb84_circuit a_bits a_basis e_basis = Inr (bb84_gates a_bits a_basis e_basis)"
    using len by (intro bb84_circuit_gates) simp_all
  show c2: "bb84_circuit ?eve_bits e_basis b_basis = Inr (bb84_gates ?eve_bits e_basis b_basis)"
    using len by (intro bb84_circuit_gates) simp_all
  show "key_exchange key_size True repetitions randint run w0 =
      ([Line ''Initiating Quantum Key Exchange'',
        Line ''Circuit 1/2: '', Diagram (bb84_gates a_bits a_basis e_basis),
        Line ''Circuit 2/2: '',
        Diagram (bb84_gates ?eve_bits e_basis b_basis),
        Line (''Quantum Key Exchange complete, sampling keys...'' @ [CHR 0x0A])],
       w6,
       Inr (a_bits, a_basis, b_basis, map (\<lambda>i. of_bool (result2 i)) [0..<key_size]))"
    by (simp add: key_exchange_def d1 d2 d3 d4 c1 c2 run_and_read_def r1 r2)
qed

lemma key_exchange_plain:
  assumes d1: "np_randint randint key_size w0 = (a_bits, w1)"
      and d2: "np_randint randint key_size w1 = (a_basis, w2)"
      and d3: "np_randint randint key_size w2 = (b_basis, w3)"
      and r: "run w3 (bb84_gates a_bits a_basis b_basis) repetitions = (result, w4)"
  shows "bb84_circuit a_bits a_basis b_basis = Inr (bb84_gates a_bits a_basis b_basis)"
    and "key_exchange key_size False repetitions randint run w0 =
      ([Line ''Initiating Quantum Key Exchange'',
        Line ''Circuit: '', Diagram (bb84_gates a_bits a_basis b_basis),
        Line (''Quantum Key Exchange complete, sampling keys...'' @ [CHR 0x0A])],
       w4,
       Inr (a_bits, a_basis, b_basis, map (\<lambda>i. of_bool (result i)) [0..<key_size]))"
proof -
  note len = np_randint_bits [OF d1] np_randint_bits [OF d2] np_randint_bits [OF d3]
  show c: "bb84_circuit a_bits a_basis b_basis = Inr (bb84_gates a_bits a_basis b_basis)"
    using len by (intro bb84_circuit_gates) simp_all
  show "key_exchange key_size False repetitions randint run w0 =
      ([Line ''Initiating Quantum Key Exchange'',
        Line ''Circuit: '', Diagram (bb84_gates a_bits a_basis b_basis),
        Line (''Quantum Key Exchange complete, sampling keys...'' @ [CHR 0x0A])],
       w4,
       Inr (a_bits, a_basis, b_basis, map (\<lambda>i. of_bool (result i)) [0..<key_size]))"
    by (simp add: key_exchange_def d1 d2 d3 c run_and_read_def r)
qed

lemma key_exchange_returns:
  "\<exists>printed w a_bits a_basis b_basis b_bits.
     key_exchange key_size eve repetitions randint run w0 =
       (printed, w, Inr (a_bits, a_basis, b_basis, b_bits)) \<and>
     length a_bits = key_size \<and> length a_basis = key_size \<and>
     length b_basis = key_size \<and> length b_bits = key_size \<and>
     list_all is_bit a_bits \<and> list_all is_bit b_bits"
proof -
  obtain a_bits w1 where d1: "np_randint randint key_size w0 = (a_bits, w1)" by force
  obtain a_basis w2 where d2: "np_randint randint key_size w1 = (a_basis, w2)" by force
  obtain b_basis w3 where d3: "np_randint randint key_size w2 = (b_basis, w3)" by force
  note len = np_randint_bits [OF d1] np_randint_bits [OF d2] np_randint_bits [OF d3]
  have bits: "list_all is_bit (map (\<lambda>i. of_bool (f i)) [0..<key_size] :: int list)" for f
    by (simp add: list_all_iff is_bit_def)
  show ?thesis
  proof (cases eve)
    case True
    obtain e_basis w4 where d4: "np_randint randint key_size w3 = (e_basis, w4)" by force
    obtain result1 w5 where
      r1: "run w4 (bb84_gates a_bits a_basis e_basis) repetitions = (result1, w5)" by force
    obtain result2 w6 where
      r2: "run w5 (bb84_gates (map (\<lambda>i. of_bool (result1 i)) [0..<key_size]) e_basis b_basis) repetitions = (result2, w6)"
      by force
    from key_exchange_eve(3) [where run = run, OF d1 d2 d3 d4 r1 r2] True len bits show ?thesis
      by simp
  next
    case False
    obtain result w4 where
      r: "run w3 (bb84_gates a_bits a_basis b_basis) repetitions = (result, w4)" by force
    from key_exchange_plain(2) [where run = run, OF d1 d2 d3 r] False len bits show ?thesis
      by simp
  qed
qed

lemma key_exchange_noiseless:
  assumes "noiseless run"
  shows "\<exists>printed w a_bits a_basis b_basis b_bits.
     key_exchange key_size False repetitions randint run w0 =
       (printed, w, Inr (a_bits, a_basis, b_basis, b_bits)) \<and>
     length a_bits = key_size \<and> length a_basis = key_size \<and>
     length b_basis = key_size \<and> length b_bits = key_size \<and>
     list_all is_bit a_bits \<and> list_all is_bit b_bits \<and>
     (\<forall>i < key_size. a_basis ! i = b_basis ! i \<longrightarrow> b_bits ! i = a_bits ! i)"
proof -
  obtain a_bits w1 where d1: "np_randint randint key_size w0 = (a_bits, w1)" by force
  obtain a_basis w2 where d2: "np_randint randint key_size w1 = (a_basis, w2)" by force
  obtain b_basis w3 where d3: "np_randint randint key_size w2 = (b_basis, w3)" by force
  note len = np_randint_bits [OF d1] np_randint_bits [OF d2] np_randint_bits [OF d3]
  have bits: "list_all is_bit (map (\<lambda>i. of_bool (f i)) [0..<key_size] :: int list)" for f
    by (simp add: list_all_iff is_bit_def)
  obtain result w4 where
    r: "run w3 (bb84_gates a_bits a_basis b_basis) repetitions = (result, w4)" by force
  note kx = key_exchange_plain [where run = run, OF d1 d2 d3 r]
  have "of_bool (result i) = a_bits ! i" if "i < key_size" "a_basis ! i = b_basis ! i" for i
  proof -
    from assms len kx(1) that
    have "of_bool (fst (run w3 (bb84_gates a_bits a_basis b_basis) repetitions) i) = a_bits ! i"
      unfolding noiseless_def by blast
    with r show ?thesis by simp
  qed
  with kx(2) len bits show ?thesis
    by simp
qed

lemma noiseless_ideal_run: "noiseless ideal_run"
  unfolding noiseless_def
proof (intro allI impI, elim conjE)
  fix w :: "nat \<times> circuit list" and bits sender_basis receiver_basis :: "int list"
    and circuit :: circuit and repetitions i :: nat
  assume bits: "list_all is_bit bits"
    and len: "length sender_basis = length bits" "length receiver_basis = length bits"
    and c: "bb84_circuit bits sender_basis receiver_basis = Inr circuit"
    and i: "i < length bits"
  from len have "bb84_circuit bits sender_basis receiver_basis =
                 Inr (bb84_gates bits sender_basis receiver_basis)"
    by (intro bb84_circuit_gates) simp_all
  with c have "circuit = bb84_gates bits sender_basis receiver_basis" by simp
  with i have "List.member circuit (X i) \<longleftrightarrow> bits ! i = 1"
    by (simp add: X_in_bb84_gates)
  moreover from bits i have "bits ! i = 0 \<or> bits ! i = 1"
    by (simp add: list_all_length is_bit_def)
  ultimately show "of_bool (fst (ideal_run w circuit repetitions) i) = bits ! i"
    by (cases w) (auto simp: ideal_run_def)
qed

section \<open>The program: results\<close>

lemma main_completes:
  assumes "string_to_bits msg = Inr bit_msg"
      and "key_exchange key_size eve repetitions randint run w0 =
             (printed, w, Inr (a_bits, a_basis, b_basis, b_bits))"
      and "sift a_bits a_basis b_bits b_basis = Inr (good_bits, a_key, b_key)"
      and "xor_bits bit_msg a_key = Inr encrypted"
      and "xor_bits encrypted b_key = Inr decrypted"
      and "bits_to_string decrypted = Inr received"
  shows "main msg key_size eve repetitions randint run w0 =
     \<lparr>console = [Input_Message msg, Bit_Message bit_msg] @ printed @
                [Line (if a_key = b_key then no_interference else interference),
                 Alice_Encrypted encrypted, Bob_Decrypted decrypted, Bob_Received received],
      raised = None, world = w\<rparr>"
  by (simp add: main_def assms)

lemma main_encrypt_fault:
  assumes "string_to_bits msg = Inr bit_msg"
      and "key_exchange key_size eve repetitions randint run w0 =
             (printed, w, Inr (a_bits, a_basis, b_basis, b_bits))"
      and "sift a_bits a_basis b_bits b_basis = Inr (good_bits, a_key, b_key)"
      and "xor_bits bit_msg a_key = Inl e"
  shows "main msg key_size eve repetitions randint run w0 =
     \<lparr>console = [Input_Message msg, Bit_Message bit_msg] @ printed @
                [Line (if a_key = b_key then no_interference else interference)],
      raised = Some e, world = w\<rparr>"
  by (simp add: main_def assms)

lemma is_bit_xor: "is_bit a \<Longrightarrow> is_bit b \<Longrightarrow> is_bit (a XOR b)"
  by (auto simp: is_bit_def)

lemma xor_bits_bits:
  assumes "list_all is_bit bits" "list_all is_bit key" "key \<noteq> []"
  shows "\<exists>out. xor_bits bits key = Inr out \<and> list_all is_bit out"
proof -
  have "is_bit (bits ! i XOR key ! (i mod length key))" if "i < length bits" for i
  proof -
    from assms(3) have "i mod length key < length key" by simp
    with assms(1,2) that show ?thesis
      by (intro is_bit_xor) (simp_all add: list_all_length)
  qed
  with assms(3) show ?thesis
    by (simp add: xor_bits_nonempty_key list_all_iff)
qed

lemma string_to_bits_bits: "string_to_bits msg = Inr bit_msg \<Longrightarrow> list_all is_bit bit_msg"
  using encode_char_bits by (auto simp: string_to_bits_encode list_all_iff)

lemma string_to_bits_nonempty:
  assumes "string_to_bits msg = Inr bit_msg" "msg \<noteq> []"
  shows "bit_msg \<noteq> []"
proof -
  from assms(2) obtain c cs where "msg = c # cs" by (cases msg) auto
  with assms(1) length_encode_char_ge [of c] show ?thesis
    by (auto simp: string_to_bits_encode)
qed

lemma nth_bits: "list_all is_bit xs \<Longrightarrow> \<forall>i \<in> set is. i < length xs \<Longrightarrow> list_all is_bit (map (\<lambda>i. xs ! i) is)"
  by (simp add: list_all_iff)

section \<open>The claims\<close>

subsection \<open>C1: without an eavesdropper, over a noiseless channel\<close>

text \<open>
  Claim C1 says that with a noiseless channel and no eavesdropper, for every message of
  printable ASCII characters and every key size of at least 1, the two sifted keys are
  equal and the message decrypted at the end of \<open>main\<close> is the message given. It does
  not hold when no position of the two bases agrees: the keys are both empty, and
  \<open>main\<close> ends in \<open>xor_bits\<close> with a ZeroDivisionError before anything is decrypted.
  Here the key size is 1, the sender's basis is 0 and the receiver's is 1.
\<close>

theorem no_eve_mismatched_bases_counterexample:
  "noiseless ideal_run \<and> printable_ascii [104, 105] \<and> (1::nat) \<le> 1 \<and>
   raised (main [104, 105] 1 False 1 (scripted_randint bases_differ) ideal_run (0, [])) =
     Some ZeroDivisionError"
proof -
  have "raised (main [104, 105] 1 False 1 (scripted_randint bases_differ) ideal_run (0, [])) =
     Some ZeroDivisionError"
    by code_simp
  with noiseless_ideal_run show ?thesis
    by (simp add: printable_ascii_def)
qed

text \<open>
  Claim C1, amended. With a noiseless channel and no eavesdropper, for every message of
  printable ASCII characters and every key size of at least 1, the two sifted keys are
  equal; and when the sifted key is not empty, \<open>main\<close> raises nothing, prints that no
  interference was detected, and the decrypted bits and the decrypted message it prints
  are the bits of the message and the message.
\<close>

theorem no_eve_noiseless_roundtrip:
  assumes "noiseless run" and "printable_ascii msg" and "1 \<le> key_size"
  shows "\<exists>bit_msg printed w a_bits a_basis b_basis b_bits good_bits a_key b_key.
      string_to_bits msg = Inr bit_msg \<and>
      key_exchange key_size False repetitions randint run w0 =
        (printed, w, Inr (a_bits, a_basis, b_basis, b_bits)) \<and>
      sift a_bits a_basis b_bits b_basis = Inr (good_bits, a_key, b_key) \<and>
      a_key = b_key \<and>
      (a_key \<noteq> [] \<longrightarrow>
        (\<exists>encrypted.
           xor_bits bit_msg a_key = Inr encrypted \<and>
           main msg key_size False repetitions randint run w0 =
             \<lparr>console = [Input_Message msg, Bit_Message bit_msg] @ printed @
                        [Line no_interference, Alice_Encrypted encrypted,
                         Bob_Decrypted bit_msg, Bob_Received msg],
              raised = None, world = w\<rparr>))"
proof -
  let ?bit_msg = "concat (map encode_char msg)"
  have enc: "string_to_bits msg = Inr ?bit_msg"
    by (rule string_to_bits_encode)
  from assms(2) have small: "\<forall>c \<in> set msg. c \<le> 255"
    by (auto simp: printable_ascii_def list_all_iff)
  from decode_encode [OF small] have dec: "bits_to_string ?bit_msg = Inr msg"
    by (simp add: enc)
  from key_exchange_noiseless [OF assms(1), of key_size repetitions randint w0]
  obtain printed w a_bits a_basis b_basis b_bits where
    kx: "key_exchange key_size False repetitions randint run w0 =
           (printed, w, Inr (a_bits, a_basis, b_basis, b_bits))"
    and len: "length a_bits = key_size" "length a_basis = key_size"
             "length b_basis = key_size" "length b_bits = key_size"
    and same: "\<forall>i < key_size. a_basis ! i = b_basis ! i \<longrightarrow> b_bits ! i = a_bits ! i"
    by blast
  from sift_keys [OF len(1,2,3,4)] obtain good_bits a_key b_key where
    sf: "sift a_bits a_basis b_bits b_basis = Inr (good_bits, a_key, b_key)"
    and good: "good_bits = filter (\<lambda>i. a_basis ! i = b_basis ! i) [0..<key_size]"
    and keys: "a_key = map (\<lambda>i. a_bits ! i) good_bits" "b_key = map (\<lambda>i. b_bits ! i) good_bits"
    by blast
  from same good have eq: "a_key = b_key"
    unfolding keys by (intro map_cong) auto
  have "\<exists>encrypted.
           xor_bits ?bit_msg a_key = Inr encrypted \<and>
           main msg key_size False repetitions randint run w0 =
             \<lparr>console = [Input_Message msg, Bit_Message ?bit_msg] @ printed @
                        [Line no_interference, Alice_Encrypted encrypted,
                         Bob_Decrypted ?bit_msg, Bob_Received msg],
              raised = None, world = w\<rparr>" if ne: "a_key \<noteq> []"
  proof -
    from xor_bits_twice [OF ne, of ?bit_msg] obtain encrypted where
      x1: "xor_bits ?bit_msg a_key = Inr encrypted" and x2: "xor_bits encrypted a_key = Inr ?bit_msg"
      by (auto simp: and_then_eq_Inr)
    from x2 eq have x2': "xor_bits encrypted b_key = Inr ?bit_msg" by simp
    from main_completes [OF enc kx sf x1 x2' dec] eq x1 show ?thesis
      by simp
  qed
  with enc kx sf eq show ?thesis
    by blast
qed

theorem no_eve_noiseless_roundtrip_witness:
  "noiseless ideal_run \<and> printable_ascii [72, 105] \<and> (1::nat) \<le> 2 \<and>
   sift [1, 0] [0, 1] [1, 0] [0, 0] = Inr ([0], [1], [1]) \<and>
   main [72, 105] 2 False 1 (scripted_randint diagonal) ideal_run (0, []) =
     \<lparr>console =
        [Input_Message [72, 105],
         Bit_Message [0, 1, 0, 0, 1, 0, 0, 0, 0, 1, 1, 0, 1, 0, 0, 1],
         Line ''Initiating Quantum Key Exchange'', Line ''Circuit: '',
         Diagram [X 0, H 1, Measure 0, Measure 1],
         Line (''Quantum Key Exchange complete, sampling keys...'' @ [CHR 0x0A]),
         Line no_interference,
         Alice_Encrypted [1, 0, 1, 1, 0, 1, 1, 1, 1, 0, 0, 1, 0, 1, 1, 0],
         Bob_Decrypted [0, 1, 0, 0, 1, 0, 0, 0, 0, 1, 1, 0, 1, 0, 0, 1],
         Bob_Received [72, 105]],
      raised = None, world = (3, [[X 0, H 1, Measure 0, Measure 1]])\<rparr>"
proof -
  have pa: "printable_ascii [72, 105]" by (simp add: printable_ascii_def)
  have ks: "(1::nat) \<le> 2" by simp
  have st: "string_to_bits [72, 105] = Inr [0, 1, 0, 0, 1, 0, 0, 0, 0, 1, 1, 0, 1, 0, 0, 1]"
    by code_simp
  have kx: "key_exchange 2 False 1 (scripted_randint diagonal) ideal_run (0, []) =
      ([Line ''Initiating Quantum Key Exchange'', Line ''Circuit: '',
        Diagram [X 0, H 1, Measure 0, Measure 1],
        Line (''Quantum Key Exchange complete, sampling keys...'' @ [CHR 0x0A])],
       (3, [[X 0, H 1, Measure 0, Measure 1]]), Inr ([1, 0], [0, 1], [0, 0], [1, 0]))"
    by code_simp
  have sf: "sift [1, 0] [0, 1] [1, 0] [0, 0] = Inr ([0], [1], [1])"
    by code_simp
  have xo: "xor_bits [0, 1, 0, 0, 1, 0, 0, 0, 0, 1, 1, 0, 1, 0, 0, 1] [1] =
            Inr [1, 0, 1, 1, 0, 1, 1, 1, 1, 0, 0, 1, 0, 1, 1, 0]"
    by code_simp
  from no_eve_noiseless_roundtrip [OF noiseless_ideal_run pa ks, of 1 "scripted_randint diagonal" "(0, [])"]
  obtain bit_msg printed w a_bits a_basis b_basis b_bits good_bits a_key b_key where
    1: "string_to_bits [72, 105] = Inr bit_msg"
    and 2: "key_exchange 2 False 1 (scripted_randint diagonal) ideal_run (0, []) =
              (printed, w, Inr (a_bits, a_basis, b_basis, b_bits))"
    and 3: "sift a_bits a_basis b_bits b_basis = Inr (good_bits, a_key, b_key)"
    and 4: "a_key \<noteq> [] \<longrightarrow>
        (\<exists>encrypted.
           xor_bits bit_msg a_key = Inr encrypted \<and>
           main [72, 105] 2 False 1 (scripted_randint diagonal) ideal_run (0, []) =
             \<lparr>console = [Input_Message [72, 105], Bit_Message bit_msg] @ printed @
                        [Line no_interference, Alice_Encrypted encrypted,
                         Bob_Decrypted bit_msg, Bob_Received [72, 105]],
              raised = None, world = w\<rparr>)"
    by blast
  from 1 st have bm: "bit_msg = [0, 1, 0, 0, 1, 0, 0, 0, 0, 1, 1, 0, 1, 0, 0, 1]" by simp
  from 2 kx have ex: "printed = [Line ''Initiating Quantum Key Exchange'', Line ''Circuit: '',
        Diagram [X 0, H 1, Measure 0, Measure 1],
        Line (''Quantum Key Exchange complete, sampling keys...'' @ [CHR 0x0A])]"
      "w = (3, [[X 0, H 1, Measure 0, Measure 1]])"
      "a_bits = [1, 0]" "a_basis = [0, 1]" "b_basis = [0, 0]" "b_bits = [1, 0]"
    by simp_all
  from 3 sf ex have ak: "a_key = [1]" by simp
  with 4 bm xo ex
  have "main [72, 105] 2 False 1 (scripted_randint diagonal) ideal_run (0, []) =
     \<lparr>console =
        [Input_Message [72, 105],
         Bit_Message [0, 1, 0, 0, 1, 0, 0, 0, 0, 1, 1, 0, 1, 0, 0, 1],
         Line ''Initiating Quantum Key Exchange'', Line ''Circuit: '',
         Diagram [X 0, H 1, Measure 0, Measure 1],
         Line (''Quantum Key Exchange complete, sampling keys...'' @ [CHR 0x0A]),
         Line no_interference,
         Alice_Encrypted [1, 0, 1, 1, 0, 1, 1, 1, 1, 0, 0, 1, 0, 1, 1, 0],
         Bob_Decrypted [0, 1, 0, 0, 1, 0, 0, 0, 0, 1, 1, 0, 1, 0, 0, 1],
         Bob_Received [72, 105]],
      raised = None, world = (3, [[X 0, H 1, Measure 0, Measure 1]])\<rparr>"
    by auto
  with noiseless_ideal_run pa ks sf show ?thesis
    by blast
qed

subsection \<open>C2: sifting\<close>

text \<open>
  Claim C2. For basis sequences of one length and bit sequences of one length (at least
  the length of the bases, as in \<open>main\<close>, where all four have the length of the key
  size), the sifting computes the positions where the two bases are equal, in increasing
  order, projects both bit sequences onto these positions in that order, and the two
  sifted keys have one length, the number of positions where the bases agree.
\<close>

theorem sift_projects_agreeing_positions:
  assumes "length a_basis = length b_basis" and "length a_bits = length b_bits"
      and "length a_basis \<le> length a_bits"
  shows "\<exists>good_bits a_key b_key.
      sift a_bits a_basis b_bits b_basis = Inr (good_bits, a_key, b_key) \<and>
      set good_bits = {i. i < length a_basis \<and> a_basis ! i = b_basis ! i} \<and>
      set good_bits = {i. i < length a_basis \<and> a_basis ! i XOR b_basis ! i = 0} \<and>
      sorted_wrt (<) good_bits \<and>
      a_key = map (\<lambda>i. a_bits ! i) good_bits \<and>
      b_key = map (\<lambda>i. b_bits ! i) good_bits \<and>
      a_key = nths a_bits (set good_bits) \<and>
      b_key = nths b_bits (set good_bits) \<and>
      length a_key = length b_key \<and>
      length a_key = card {i. i < length a_basis \<and> a_basis ! i = b_basis ! i}"
proof -
  let ?agree = "\<lambda>i. a_basis ! i = b_basis ! i"
  let ?good = "filter ?agree [0..<length a_basis]"
  let ?a_key = "map (\<lambda>i. a_bits ! i) ?good"
  let ?b_key = "map (\<lambda>i. b_bits ! i) ?good"
  have sf: "sift a_bits a_basis b_bits b_basis = Inr (?good, ?a_key, ?b_key)"
    using assms by (rule sift_ok)
  have s: "set ?good = {i. i < length a_basis \<and> ?agree i}"
    by auto
  have x: "set ?good = {i. i < length a_basis \<and> a_basis ! i XOR b_basis ! i = 0}"
    by (auto simp: xor_eq_0_iff_int)
  have srt: "sorted_wrt (<) ?good"
    by (intro sorted_wrt_filter) simp
  have na: "?a_key = nths a_bits (set ?good)"
    unfolding s using assms(3) by (rule map_nth_filter_upt_le)
  have nb: "?b_key = nths b_bits (set ?good)"
    unfolding s using assms(2,3) by (intro map_nth_filter_upt_le) simp
  have la: "length ?a_key = length ?b_key"
    by simp
  have lc: "length ?a_key = card {i. i < length a_basis \<and> ?agree i}"
    by (simp add: length_filter_upt)
  show ?thesis
    by (intro exI conjI) (rule sf s x srt refl na nb la lc)+
qed

theorem sift_projects_agreeing_positions_witness:
  "length [0, 1, 1 :: int] = length [0, 0, 1 :: int] \<and>
   length [1, 0, 1 :: int] = length [1, 1, 0 :: int] \<and>
   length [0, 1, 1 :: int] \<le> length [1, 0, 1 :: int] \<and>
   sift [1, 0, 1] [0, 1, 1] [1, 1, 0] [0, 0, 1] = Inr ([0, 2], [1, 1], [1, 0]) \<and>
   (\<exists>good_bits a_key b_key.
      sift [1, 0, 1] [0, 1, 1] [1, 1, 0] [0, 0, 1] = Inr (good_bits, a_key, b_key) \<and>
      set good_bits = {i. i < length [0, 1, 1 :: int] \<and> [0, 1, 1 :: int] ! i = [0, 0, 1] ! i} \<and>
      set good_bits = {i. i < length [0, 1, 1 :: int] \<and> [0, 1, 1 :: int] ! i XOR [0, 0, 1] ! i = 0} \<and>
      sorted_wrt (<) good_bits \<and>
      a_key = map (\<lambda>i. [1, 0, 1] ! i) good_bits \<and>
      b_key = map (\<lambda>i. [1, 1, 0] ! i) good_bits \<and>
      a_key = nths [1, 0, 1] (set good_bits) \<and>
      b_key = nths [1, 1, 0] (set good_bits) \<and>
      length a_key = length b_key \<and>
      length a_key = card {i. i < length [0, 1, 1 :: int] \<and> [0, 1, 1 :: int] ! i = [0, 0, 1] ! i})"
proof -
  have 1: "length [0, 1, 1 :: int] = length [0, 0, 1 :: int]" by simp
  have 2: "length [1, 0, 1 :: int] = length [1, 1, 0 :: int]" by simp
  have 3: "length [0, 1, 1 :: int] \<le> length [1, 0, 1 :: int]" by simp
  have v: "sift [1, 0, 1] [0, 1, 1] [1, 1, 0] [0, 0, 1] = Inr ([0, 2], [1, 1], [1, 0])"
    by code_simp
  from 1 2 3 v sift_projects_agreeing_positions [OF 1 2 3] show ?thesis
    by blast
qed

subsection \<open>C3: the XOR cipher twice\<close>

text \<open>
  Claim C3. For every bit sequence \<open>b\<close> and every key \<open>k\<close> that is not empty,
  \<open>xor_bits(xor_bits(b, k), k)\<close> is \<open>b\<close>.
\<close>

theorem xor_bits_involution:
  assumes "k \<noteq> []"
  shows "\<exists>c. xor_bits b k = Inr c \<and> xor_bits c k = Inr b"
  using xor_bits_twice [OF assms, of b] by (simp add: and_then_eq_Inr)

theorem xor_bits_involution_witness:
  "[1, 1, 0] \<noteq> ([] :: int list) \<and>
   xor_bits [0, 1, 1, 0, 1] [1, 1, 0] = Inr [1, 0, 1, 1, 0] \<and>
   xor_bits [1, 0, 1, 1, 0] [1, 1, 0] = Inr [0, 1, 1, 0, 1]"
proof -
  have ne: "[1, 1, 0] \<noteq> ([] :: int list)" by simp
  have v: "xor_bits [0, 1, 1, 0, 1] [1, 1, 0] = Inr [1, 0, 1, 1, 0]"
    by code_simp
  from xor_bits_involution [OF ne, of "[0, 1, 1, 0, 1]"] v
  have "xor_bits [1, 0, 1, 1, 0] [1, 1, 0] = Inr [0, 1, 1, 0, 1]"
    by auto
  with ne v show ?thesis by blast
qed

subsection \<open>C4: the codec's round trip\<close>

text \<open>
  Claim C4. For every string whose characters have code points from 0 to 255,
  \<open>bits_to_string(string_to_bits(s))\<close> is \<open>s\<close>; \<open>string_to_bits\<close> renders each
  character as a group of eight bits, its binary value padded with zeros on the left,
  so the encoded sequence has eight times as many bits as \<open>s\<close> has characters.
\<close>

theorem codec_roundtrip:
  assumes "\<forall>c \<in> set s. c \<le> 255"
  shows "\<exists>bits.
      string_to_bits s = Inr bits \<and>
      bits = concat (map encode_char s) \<and>
      (\<forall>c \<in> set s. length (encode_char c) = 8 \<and> list_all is_bit (encode_char c) \<and>
                     bits_value (encode_char c) = int c) \<and>
      length bits = 8 * length s \<and>
      bits_to_string bits = Inr s"
proof -
  have "\<forall>c \<in> set (map encode_char s). length c = 8"
    using assms by (auto simp: length_encode_char)
  then have "length (concat (map encode_char s)) = 8 * length s"
    by (simp add: length_concat_chunks)
  moreover from decode_encode [OF assms]
  have "bits_to_string (concat (map encode_char s)) = Inr s"
    by (simp add: string_to_bits_encode)
  ultimately show ?thesis
    using assms
    by (auto simp: string_to_bits_encode length_encode_char encode_char_bits bits_value_encode_char)
qed

theorem codec_roundtrip_witness:
  "(72 :: nat) \<le> 255 \<and> (105 :: nat) \<le> 255 \<and> (233 :: nat) \<le> 255 \<and>
   string_to_bits [72, 105, 233] =
     Inr [0, 1, 0, 0, 1, 0, 0, 0,  0, 1, 1, 0, 1, 0, 0, 1,  1, 1, 1, 0, 1, 0, 0, 1] \<and>
   bits_to_string [0, 1, 0, 0, 1, 0, 0, 0,  0, 1, 1, 0, 1, 0, 0, 1,  1, 1, 1, 0, 1, 0, 0, 1] =
     Inr [72, 105, 233]"
proof -
  have h: "\<forall>c \<in> set [72, 105, 233 :: nat]. c \<le> 255" by simp
  have v: "string_to_bits [72, 105, 233] =
     Inr [0, 1, 0, 0, 1, 0, 0, 0,  0, 1, 1, 0, 1, 0, 0, 1,  1, 1, 1, 0, 1, 0, 0, 1]"
    by code_simp
  from codec_roundtrip [OF h] v
  have "bits_to_string [0, 1, 0, 0, 1, 0, 0, 0,  0, 1, 1, 0, 1, 0, 0, 1,  1, 1, 1, 0, 1, 0, 0, 1] =
     Inr [72, 105, 233]"
    by auto
  with v show ?thesis by simp
qed

subsection \<open>C5: the XOR cipher, element by element\<close>

text \<open>
  Claim C5. For an input of length L and a key of length K > 0, \<open>xor_bits\<close> returns
  a list of length L whose element i is \<open>input[i] XOR key[i mod K]\<close>, for every i < L.
\<close>

theorem xor_bits_elementwise:
  assumes "0 < length key"
  shows "\<exists>out. xor_bits bits key = Inr out \<and> length out = length bits \<and>
           (\<forall>i < length bits. out ! i = bits ! i XOR key ! (i mod length key))"
  using assms by (simp add: xor_bits_nonempty_key)

theorem xor_bits_elementwise_witness:
  "0 < length [1, 0 :: int] \<and>
   xor_bits [1, 1, 0] [1, 0] = Inr [0, 1, 1] \<and>
   (\<exists>out. xor_bits [1, 1, 0] [1, 0] = Inr out \<and> length out = length [1, 1, 0 :: int] \<and>
      (\<forall>i < length [1, 1, 0 :: int].
         out ! i = [1, 1, 0] ! i XOR [1, 0 :: int] ! (i mod length [1, 0 :: int])))"
proof -
  have pos: "0 < length [1, 0 :: int]" by simp
  have val: "xor_bits [1, 1, 0] [1, 0] = Inr [0, 1, 1]"
    by (simp add: xor_bits_def py_index_def py_mod_def)
  from pos val xor_bits_elementwise [OF pos, of "[1, 1, 0]"] show ?thesis
    by blast
qed

subsection \<open>C6: an empty sifted key\<close>

text \<open>
  Claim C6 says that when the sifted key is empty, the program reports that no shared
  key was established instead of reaching the modulo by zero of the XOR cipher. The
  program has no such check: with the key size 1, the sender's basis 0 and the
  receiver's basis 1, it prints that no interference was detected and then ends in
  \<open>xor_bits\<close> with a ZeroDivisionError.
\<close>

theorem empty_key_counterexample:
  "main [72, 105] 1 False 1 (scripted_randint bases_differ) ideal_run (0, []) =
     \<lparr>console =
        [Input_Message [72, 105],
         Bit_Message [0, 1, 0, 0, 1, 0, 0, 0, 0, 1, 1, 0, 1, 0, 0, 1],
         Line ''Initiating Quantum Key Exchange'', Line ''Circuit: '',
         Diagram [H 0, Measure 0],
         Line (''Quantum Key Exchange complete, sampling keys...'' @ [CHR 0x0A]),
         Line no_interference],
      raised = Some ZeroDivisionError, world = (3, [[H 0, Measure 0]])\<rparr>"
  by code_simp

text \<open>
  Claim C6, amended. The program does not check for an empty sifted key. When the sifted
  key is empty and the message is not, \<open>main\<close> prints that no interference was
  detected, reaches the XOR cipher, and ends there with the ZeroDivisionError of
  \<open>i % len(key)\<close>; when the message is empty as well, the cipher's loop does not run
  and \<open>main\<close> completes, printing an empty message.
\<close>

theorem empty_key_faults:
  "\<exists>bit_msg printed w a_bits a_basis b_bits b_basis good_bits a_key b_key.
      string_to_bits msg = Inr bit_msg \<and>
      key_exchange key_size eve repetitions randint run w0 =
        (printed, w, Inr (a_bits, a_basis, b_basis, b_bits)) \<and>
      sift a_bits a_basis b_bits b_basis = Inr (good_bits, a_key, b_key) \<and>
      (a_key = [] \<and> msg \<noteq> [] \<longrightarrow>
         xor_bits bit_msg a_key = Inl ZeroDivisionError \<and>
         main msg key_size eve repetitions randint run w0 =
           \<lparr>console = [Input_Message msg, Bit_Message bit_msg] @ printed @ [Line no_interference],
            raised = Some ZeroDivisionError, world = w\<rparr>) \<and>
      (a_key = [] \<and> msg = [] \<longrightarrow>
         main msg key_size eve repetitions randint run w0 =
           \<lparr>console = [Input_Message [], Bit_Message []] @ printed @
                      [Line no_interference, Alice_Encrypted [], Bob_Decrypted [], Bob_Received []],
            raised = None, world = w\<rparr>)"
proof -
  let ?bit_msg = "concat (map encode_char msg)"
  have enc: "string_to_bits msg = Inr ?bit_msg"
    by (rule string_to_bits_encode)
  from key_exchange_returns [of key_size eve repetitions randint run w0]
  obtain printed w a_bits a_basis b_basis b_bits where
    kx: "key_exchange key_size eve repetitions randint run w0 =
           (printed, w, Inr (a_bits, a_basis, b_basis, b_bits))"
    and len: "length a_bits = key_size" "length a_basis = key_size"
             "length b_basis = key_size" "length b_bits = key_size"
    by blast
  from sift_keys [OF len(1,2,3,4)] obtain good_bits a_key b_key where
    sf: "sift a_bits a_basis b_bits b_basis = Inr (good_bits, a_key, b_key)"
    and keys: "a_key = map (\<lambda>i. a_bits ! i) good_bits" "b_key = map (\<lambda>i. b_bits ! i) good_bits"
    by blast
  have 1: "xor_bits ?bit_msg a_key = Inl ZeroDivisionError \<and>
         main msg key_size eve repetitions randint run w0 =
           \<lparr>console = [Input_Message msg, Bit_Message ?bit_msg] @ printed @ [Line no_interference],
            raised = Some ZeroDivisionError, world = w\<rparr>" if "a_key = []" "msg \<noteq> []"
  proof -
    from that(1) keys have b: "b_key = []" by simp
    from string_to_bits_nonempty [OF enc that(2)] that(1)
    have x: "xor_bits ?bit_msg a_key = Inl ZeroDivisionError"
      by (simp add: xor_bits_empty_key)
    from main_encrypt_fault [OF enc kx sf x] that(1) b x show ?thesis by simp
  qed
  have 2: "main msg key_size eve repetitions randint run w0 =
           \<lparr>console = [Input_Message [], Bit_Message []] @ printed @
                      [Line no_interference, Alice_Encrypted [], Bob_Decrypted [], Bob_Received []],
            raised = None, world = w\<rparr>" if "a_key = []" "msg = []"
  proof -
    from that(1) keys have b: "b_key = []" by simp
    from that(2) have e: "string_to_bits msg = Inr []" by (simp add: string_to_bits_encode)
    have d: "bits_to_string [] = Inr []" by (simp add: bits_to_string_def)
    from main_completes [OF e kx sf xor_bits_empty_bits xor_bits_empty_bits d] that b
    show ?thesis by simp
  qed
  have f1: "a_key = [] \<and> msg \<noteq> [] \<longrightarrow>
         xor_bits ?bit_msg a_key = Inl ZeroDivisionError \<and>
         main msg key_size eve repetitions randint run w0 =
           \<lparr>console = [Input_Message msg, Bit_Message ?bit_msg] @ printed @ [Line no_interference],
            raised = Some ZeroDivisionError, world = w\<rparr>"
    using 1 by blast
  have f2: "a_key = [] \<and> msg = [] \<longrightarrow>
         main msg key_size eve repetitions randint run w0 =
           \<lparr>console = [Input_Message [], Bit_Message []] @ printed @
                      [Line no_interference, Alice_Encrypted [], Bob_Decrypted [], Bob_Received []],
            raised = None, world = w\<rparr>"
    using 2 by blast
  show ?thesis
    by (intro exI conjI) (rule enc kx sf f1 f2)+
qed

theorem empty_key_faults_witness:
  "sift [0] [0] [1] [1] = Inr ([], [], []) \<and> [104] \<noteq> ([] :: pystr) \<and>
   xor_bits [0, 1, 1, 0, 1, 0, 0, 0] [] = Inl ZeroDivisionError \<and>
   raised (main [104] 1 False 1 (scripted_randint bases_differ) flipped_run (0, [])) =
     Some ZeroDivisionError \<and>
   console (main [104] 1 False 1 (scripted_randint bases_differ) flipped_run (0, [])) =
     [Input_Message [104], Bit_Message [0, 1, 1, 0, 1, 0, 0, 0],
      Line ''Initiating Quantum Key Exchange'', Line ''Circuit: '', Diagram [H 0, Measure 0],
      Line (''Quantum Key Exchange complete, sampling keys...'' @ [CHR 0x0A]),
      Line no_interference]"
proof -
  have st: "string_to_bits [104] = Inr [0, 1, 1, 0, 1, 0, 0, 0]"
    by code_simp
  have kx: "key_exchange 1 False 1 (scripted_randint bases_differ) flipped_run (0, []) =
      ([Line ''Initiating Quantum Key Exchange'', Line ''Circuit: '', Diagram [H 0, Measure 0],
        Line (''Quantum Key Exchange complete, sampling keys...'' @ [CHR 0x0A])],
       (3, [[H 0, Measure 0]]), Inr ([0], [0], [1], [1]))"
    by code_simp
  have sf: "sift [0] [0] [1] [1] = Inr ([], [], [])"
    by code_simp
  from empty_key_faults [of "[104]" 1 False 1 "scripted_randint bases_differ" flipped_run "(0, [])"]
  obtain bit_msg printed w a_bits a_basis b_bits b_basis good_bits a_key b_key where
    1: "string_to_bits [104] = Inr bit_msg"
    and 2: "key_exchange 1 False 1 (scripted_randint bases_differ) flipped_run (0, []) =
              (printed, w, Inr (a_bits, a_basis, b_basis, b_bits))"
    and 3: "sift a_bits a_basis b_bits b_basis = Inr (good_bits, a_key, b_key)"
    and 4: "a_key = [] \<and> [104] \<noteq> ([] :: pystr) \<longrightarrow>
         xor_bits bit_msg a_key = Inl ZeroDivisionError \<and>
         main [104] 1 False 1 (scripted_randint bases_differ) flipped_run (0, []) =
           \<lparr>console = [Input_Message [104], Bit_Message bit_msg] @ printed @ [Line no_interference],
            raised = Some ZeroDivisionError, world = w\<rparr>"
    by blast
  from 1 st have bm: "bit_msg = [0, 1, 1, 0, 1, 0, 0, 0]" by simp
  from 2 kx have ex: "printed = [Line ''Initiating Quantum Key Exchange'', Line ''Circuit: '',
        Diagram [H 0, Measure 0],
        Line (''Quantum Key Exchange complete, sampling keys...'' @ [CHR 0x0A])]"
      "a_bits = [0]" "a_basis = [0]" "b_basis = [1]" "b_bits = [1]"
    by simp_all
  from 3 sf ex have ak: "a_key = []" by simp
  with 4 bm ex have
    "xor_bits [0, 1, 1, 0, 1, 0, 0, 0] [] = Inl ZeroDivisionError"
    "raised (main [104] 1 False 1 (scripted_randint bases_differ) flipped_run (0, [])) =
       Some ZeroDivisionError"
    "console (main [104] 1 False 1 (scripted_randint bases_differ) flipped_run (0, [])) =
     [Input_Message [104], Bit_Message [0, 1, 1, 0, 1, 0, 0, 0],
      Line ''Initiating Quantum Key Exchange'', Line ''Circuit: '', Diagram [H 0, Measure 0],
      Line (''Quantum Key Exchange complete, sampling keys...'' @ [CHR 0x0A]),
      Line no_interference]"
    by auto
  with sf show ?thesis by simp
qed

subsection \<open>C7: characters above 255\<close>

text \<open>
  Claim C7 says that the encoder rejects a string with a character whose code point is
  above 255. It does not: \<open>string_to_bits\<close> checks nothing and raises nothing. The
  character 256 is rendered as its nine binary digits, which \<open>bits_to_string\<close> reads
  back as the character 128.
\<close>

theorem wide_character_counterexample:
  "string_to_bits [256] = Inr [1, 0, 0, 0, 0, 0, 0, 0, 0] \<and>
   bits_to_string [1, 0, 0, 0, 0, 0, 0, 0, 0] = Inr [128]"
  by code_simp

text \<open>
  Claim C7, amended. \<open>string_to_bits\<close> rejects no string: for every input string it
  returns a bit sequence. A character whose code point is above 255 is rendered as
  its binary digits, more than eight of them, so that for a string with such a character
  the encoded sequence is longer than eight times the number of characters.
\<close>

theorem string_to_bits_accepts_wide_characters:
  "\<exists>bits.
      string_to_bits string = Inr bits \<and>
      bits = concat (map encode_char string) \<and>
      8 * length string \<le> length bits \<and>
      (\<forall>c \<in> set string. 255 < c \<longrightarrow>
         8 < length (encode_char c) \<and> bits_value (encode_char c) = int c) \<and>
      ((\<exists>c \<in> set string. 255 < c) \<longrightarrow> 8 * length string < length bits)"
proof -
  have ge: "8 * length cs \<le> length (concat (map encode_char cs))" for cs
  proof (induction cs)
    case Nil
    show ?case by simp
  next
    case (Cons c cs)
    with length_encode_char_ge [of c] show ?case by simp
  qed
  have gt: "8 * length cs < length (concat (map encode_char cs))"
    if "\<exists>c \<in> set cs. 255 < c" for cs
    using that
  proof (induction cs)
    case Nil
    then show ?case by simp
  next
    case (Cons c cs)
    show ?case
    proof (cases "255 < c")
      case True
      with length_encode_char_big [of c] ge [of cs] show ?thesis by simp
    next
      case False
      with Cons.prems have "\<exists>c \<in> set cs. 255 < c" by simp
      with Cons.IH length_encode_char_ge [of c] show ?thesis by simp
    qed
  qed
  from ge [of string] gt [of string] show ?thesis
    by (simp add: string_to_bits_encode length_encode_char_big bits_value_encode_char)
qed

theorem string_to_bits_accepts_wide_characters_witness:
  "(\<exists>c \<in> set [104, 256 :: nat]. 255 < c) \<and>
   string_to_bits [104, 256] = Inr [0, 1, 1, 0, 1, 0, 0, 0,  1, 0, 0, 0, 0, 0, 0, 0, 0] \<and>
   8 * length [104, 256 :: nat] < length [0, 1, 1, 0, 1, 0, 0, 0,  1, 0, 0, 0, 0, 0, 0, 0, 0 :: int] \<and>
   8 < length (encode_char 256) \<and> bits_value (encode_char 256) = 256"
proof -
  have h: "\<exists>c \<in> set [104, 256 :: nat]. 255 < c" by simp
  have v: "string_to_bits [104, 256] = Inr [0, 1, 1, 0, 1, 0, 0, 0,  1, 0, 0, 0, 0, 0, 0, 0, 0]"
    by code_simp
  from string_to_bits_accepts_wide_characters [of "[104, 256]"] obtain bits where
    1: "string_to_bits [104, 256] = Inr bits"
    and 2: "\<forall>c \<in> set [104, 256 :: nat]. 255 < c \<longrightarrow>
              8 < length (encode_char c) \<and> bits_value (encode_char c) = int c"
    and 3: "(\<exists>c \<in> set [104, 256 :: nat]. 255 < c) \<longrightarrow> 8 * length [104, 256 :: nat] < length bits"
    by blast
  from 1 v have "bits = [0, 1, 1, 0, 1, 0, 0, 0,  1, 0, 0, 0, 0, 0, 0, 0, 0]" by simp
  with 3 h have "8 * length [104, 256 :: nat] <
                 length [0, 1, 1, 0, 1, 0, 0, 0,  1, 0, 0, 0, 0, 0, 0, 0, 0 :: int]"
    by blast
  moreover from 2 have "8 < length (encode_char 256) \<and> bits_value (encode_char 256) = 256"
    by simp
  ultimately show ?thesis using h v by blast
qed

subsection \<open>C8: keys that differ\<close>

text \<open>
  Claim C8. Whenever the sender's sifted key and the receiver's differ, \<open>main\<close> prints
  the warning and goes on: it encrypts with the sender's key, decrypts with the
  receiver's key, prints the decrypted message, and raises nothing.
\<close>

theorem interference_warns_and_continues:
  "\<exists>bit_msg printed w a_bits a_basis b_bits b_basis good_bits a_key b_key.
      string_to_bits msg = Inr bit_msg \<and>
      key_exchange key_size eve repetitions randint run w0 =
        (printed, w, Inr (a_bits, a_basis, b_basis, b_bits)) \<and>
      sift a_bits a_basis b_bits b_basis = Inr (good_bits, a_key, b_key) \<and>
      (a_key \<noteq> b_key \<longrightarrow>
        (\<exists>encrypted decrypted received.
           xor_bits bit_msg a_key = Inr encrypted \<and>
           xor_bits encrypted b_key = Inr decrypted \<and>
           bits_to_string decrypted = Inr received \<and>
           main msg key_size eve repetitions randint run w0 =
             \<lparr>console = [Input_Message msg, Bit_Message bit_msg] @ printed @
                        [Line interference, Alice_Encrypted encrypted,
                         Bob_Decrypted decrypted, Bob_Received received],
              raised = None, world = w\<rparr>))"
proof -
  obtain bit_msg where enc: "string_to_bits msg = Inr bit_msg"
    by (simp add: string_to_bits_encode)
  from key_exchange_returns [of key_size eve repetitions randint run w0]
  obtain printed w a_bits a_basis b_basis b_bits where
    kx: "key_exchange key_size eve repetitions randint run w0 =
           (printed, w, Inr (a_bits, a_basis, b_basis, b_bits))"
    and len: "length a_bits = key_size" "length a_basis = key_size"
             "length b_basis = key_size" "length b_bits = key_size"
    and bits: "list_all is_bit a_bits" "list_all is_bit b_bits"
    by blast
  from sift_keys [OF len(1,2,3,4)] obtain good_bits a_key b_key where
    sf: "sift a_bits a_basis b_bits b_basis = Inr (good_bits, a_key, b_key)"
    and good: "good_bits = filter (\<lambda>i. a_basis ! i = b_basis ! i) [0..<key_size]"
    and keys: "a_key = map (\<lambda>i. a_bits ! i) good_bits" "b_key = map (\<lambda>i. b_bits ! i) good_bits"
    by blast
  have "\<exists>encrypted decrypted received.
           xor_bits bit_msg a_key = Inr encrypted \<and>
           xor_bits encrypted b_key = Inr decrypted \<and>
           bits_to_string decrypted = Inr received \<and>
           main msg key_size eve repetitions randint run w0 =
             \<lparr>console = [Input_Message msg, Bit_Message bit_msg] @ printed @
                        [Line interference, Alice_Encrypted encrypted,
                         Bob_Decrypted decrypted, Bob_Received received],
              raised = None, world = w\<rparr>" if ne: "a_key \<noteq> b_key"
  proof -
    from ne keys have g: "good_bits \<noteq> []" by auto
    with keys have kne: "a_key \<noteq> []" "b_key \<noteq> []" by simp_all
    from good have "\<forall>i \<in> set good_bits. i < key_size" by simp
    with bits len keys have kb: "list_all is_bit a_key" "list_all is_bit b_key"
      by (simp_all add: nth_bits)
    from xor_bits_bits [OF string_to_bits_bits [OF enc] kb(1) kne(1)] obtain encrypted where
      x1: "xor_bits bit_msg a_key = Inr encrypted" and eb: "list_all is_bit encrypted" by blast
    from xor_bits_bits [OF eb kb(2) kne(2)] obtain decrypted where
      x2: "xor_bits encrypted b_key = Inr decrypted" and db: "list_all is_bit decrypted" by blast
    from bits_to_string_bits [OF db] obtain received where
      d: "bits_to_string decrypted = Inr received" by blast
    from main_completes [OF enc kx sf x1 x2 d] ne x1 x2 d show ?thesis by simp
  qed
  with enc kx sf show ?thesis by blast
qed

theorem interference_warns_and_continues_witness:
  "sift [1, 0] [0, 1] [0, 1] [0, 0] = Inr ([0], [1], [0]) \<and> [1] \<noteq> [0 :: int] \<and>
   main [104] 2 False 1 (scripted_randint diagonal) flipped_run (0, []) =
     \<lparr>console =
        [Input_Message [104], Bit_Message [0, 1, 1, 0, 1, 0, 0, 0],
         Line ''Initiating Quantum Key Exchange'', Line ''Circuit: '',
         Diagram [X 0, H 1, Measure 0, Measure 1],
         Line (''Quantum Key Exchange complete, sampling keys...'' @ [CHR 0x0A]),
         Line interference,
         Alice_Encrypted [1, 0, 0, 1, 0, 1, 1, 1],
         Bob_Decrypted [1, 0, 0, 1, 0, 1, 1, 1],
         Bob_Received [151]],
      raised = None, world = (3, [[X 0, H 1, Measure 0, Measure 1]])\<rparr>"
proof -
  have st: "string_to_bits [104] = Inr [0, 1, 1, 0, 1, 0, 0, 0]"
    by code_simp
  have kx: "key_exchange 2 False 1 (scripted_randint diagonal) flipped_run (0, []) =
      ([Line ''Initiating Quantum Key Exchange'', Line ''Circuit: '',
        Diagram [X 0, H 1, Measure 0, Measure 1],
        Line (''Quantum Key Exchange complete, sampling keys...'' @ [CHR 0x0A])],
       (3, [[X 0, H 1, Measure 0, Measure 1]]), Inr ([1, 0], [0, 1], [0, 0], [0, 1]))"
    by code_simp
  have sf: "sift [1, 0] [0, 1] [0, 1] [0, 0] = Inr ([0], [1], [0])"
    by code_simp
  have x1: "xor_bits [0, 1, 1, 0, 1, 0, 0, 0] [1] = Inr [1, 0, 0, 1, 0, 1, 1, 1]"
    by code_simp
  have x2: "xor_bits [1, 0, 0, 1, 0, 1, 1, 1] [0] = Inr [1, 0, 0, 1, 0, 1, 1, 1]"
    by code_simp
  have bs: "bits_to_string [1, 0, 0, 1, 0, 1, 1, 1] = Inr [151]"
    by code_simp
  from interference_warns_and_continues
    [of "[104]" 2 False 1 "scripted_randint diagonal" flipped_run "(0, [])"]
  obtain bit_msg printed w a_bits a_basis b_bits b_basis good_bits a_key b_key where
    1: "string_to_bits [104] = Inr bit_msg"
    and 2: "key_exchange 2 False 1 (scripted_randint diagonal) flipped_run (0, []) =
              (printed, w, Inr (a_bits, a_basis, b_basis, b_bits))"
    and 3: "sift a_bits a_basis b_bits b_basis = Inr (good_bits, a_key, b_key)"
    and 4: "a_key \<noteq> b_key \<longrightarrow>
        (\<exists>encrypted decrypted received.
           xor_bits bit_msg a_key = Inr encrypted \<and>
           xor_bits encrypted b_key = Inr decrypted \<and>
           bits_to_string decrypted = Inr received \<and>
           main [104] 2 False 1 (scripted_randint diagonal) flipped_run (0, []) =
             \<lparr>console = [Input_Message [104], Bit_Message bit_msg] @ printed @
                        [Line interference, Alice_Encrypted encrypted,
                         Bob_Decrypted decrypted, Bob_Received received],
              raised = None, world = w\<rparr>)"
    by blast
  from 1 st have bm: "bit_msg = [0, 1, 1, 0, 1, 0, 0, 0]" by simp
  from 2 kx have ex: "printed = [Line ''Initiating Quantum Key Exchange'', Line ''Circuit: '',
        Diagram [X 0, H 1, Measure 0, Measure 1],
        Line (''Quantum Key Exchange complete, sampling keys...'' @ [CHR 0x0A])]"
      "w = (3, [[X 0, H 1, Measure 0, Measure 1]])"
      "a_bits = [1, 0]" "a_basis = [0, 1]" "b_basis = [0, 0]" "b_bits = [0, 1]"
    by simp_all
  from 3 sf ex have ks: "a_key = [1]" "b_key = [0]" by simp_all
  with 4 bm x1 x2 bs ex
  have "main [104] 2 False 1 (scripted_randint diagonal) flipped_run (0, []) =
     \<lparr>console =
        [Input_Message [104], Bit_Message [0, 1, 1, 0, 1, 0, 0, 0],
         Line ''Initiating Quantum Key Exchange'', Line ''Circuit: '',
         Diagram [X 0, H 1, Measure 0, Measure 1],
         Line (''Quantum Key Exchange complete, sampling keys...'' @ [CHR 0x0A]),
         Line interference,
         Alice_Encrypted [1, 0, 0, 1, 0, 1, 1, 1],
         Bob_Decrypted [1, 0, 0, 1, 0, 1, 1, 1],
         Bob_Received [151]],
      raised = None, world = (3, [[X 0, H 1, Measure 0, Measure 1]])\<rparr>"
    by auto
  with sf show ?thesis by simp
qed

subsection \<open>C9: the eavesdropper\<close>

text \<open>
  Claim C9. With the eavesdropper, the key exchange runs the simulator twice, one run
  after the other: first on the circuit built from the sender's bits, the sender's
  basis and the eavesdropper's basis, then on the circuit built from the bits the
  eavesdropper measured, the eavesdropper's basis and the receiver's basis. The
  eavesdropper's basis is a draw of its own, the fourth. The state of the libraries goes
  from the fourth draw through the first run into the second, and the receiver's bits
  are read from the second run. Neither circuit fails to build.
\<close>

theorem eve_runs_simulator_twice:
  assumes "np_randint randint key_size w0 = (a_bits, w1)"
      and "np_randint randint key_size w1 = (a_basis, w2)"
      and "np_randint randint key_size w2 = (b_basis, w3)"
      and "np_randint randint key_size w3 = (e_basis, w4)"
  shows "\<exists>circuit1 result1 w5 eve_bits circuit2 result2 w6 b_bits.
      bb84_circuit a_bits a_basis e_basis = Inr circuit1 \<and>
      run w4 circuit1 repetitions = (result1, w5) \<and>
      eve_bits = map (\<lambda>i. of_bool (result1 i)) [0..<key_size] \<and>
      bb84_circuit eve_bits e_basis b_basis = Inr circuit2 \<and>
      run w5 circuit2 repetitions = (result2, w6) \<and>
      b_bits = map (\<lambda>i. of_bool (result2 i)) [0..<key_size] \<and>
      key_exchange key_size True repetitions randint run w0 =
        ([Line ''Initiating Quantum Key Exchange'',
          Line ''Circuit 1/2: '', Diagram circuit1,
          Line ''Circuit 2/2: '', Diagram circuit2,
          Line (''Quantum Key Exchange complete, sampling keys...'' @ [CHR 0x0A])],
         w6, Inr (a_bits, a_basis, b_basis, b_bits))"
proof -
  obtain result1 w5 where
    r1: "run w4 (bb84_gates a_bits a_basis e_basis) repetitions = (result1, w5)" by force
  obtain result2 w6 where
    r2: "run w5 (bb84_gates (map (\<lambda>i. of_bool (result1 i)) [0..<key_size]) e_basis b_basis) repetitions = (result2, w6)"
    by force
  note kx = key_exchange_eve [where run = run, OF assms r1 r2]
  from kx(1) r1 kx(2) r2 kx(3) show ?thesis
    by blast
qed

theorem eve_runs_simulator_twice_witness:
  "np_randint (scripted_randint diagonal) 4 (0, []) = ([1, 0, 0, 0], (1, [])) \<and>
   np_randint (scripted_randint diagonal) 4 (1, []) = ([0, 1, 0, 0], (2, [])) \<and>
   np_randint (scripted_randint diagonal) 4 (2, []) = ([0, 0, 1, 0], (3, [])) \<and>
   np_randint (scripted_randint diagonal) 4 (3, []) = ([0, 0, 0, 1], (4, [])) \<and>
   bb84_circuit [1, 0, 0, 0] [0, 1, 0, 0] [0, 0, 0, 1] =
     Inr [X 0, H 1, H 3, Measure 0, Measure 1, Measure 2, Measure 3] \<and>
   bb84_circuit [1, 0, 0, 0] [0, 0, 0, 1] [0, 0, 1, 0] =
     Inr [X 0, H 3, H 2, Measure 0, Measure 1, Measure 2, Measure 3] \<and>
   snd (key_exchange 4 True 1 (scripted_randint diagonal) ideal_run (0, [])) =
     ((4, [[X 0, H 1, H 3, Measure 0, Measure 1, Measure 2, Measure 3],
           [X 0, H 3, H 2, Measure 0, Measure 1, Measure 2, Measure 3]]),
      Inr ([1, 0, 0, 0], [0, 1, 0, 0], [0, 0, 1, 0], [1, 0, 0, 0]))"
proof -
  have d1: "np_randint (scripted_randint diagonal) 4 (0, []) = ([1, 0, 0, 0], (1, []))"
    by code_simp
  have d2: "np_randint (scripted_randint diagonal) 4 (1, []) = ([0, 1, 0, 0], (2, []))"
    by code_simp
  have d3: "np_randint (scripted_randint diagonal) 4 (2, []) = ([0, 0, 1, 0], (3, []))"
    by code_simp
  have d4: "np_randint (scripted_randint diagonal) 4 (3, []) = ([0, 0, 0, 1], (4, []))"
    by code_simp
  have c1: "bb84_circuit [1, 0, 0, 0] [0, 1, 0, 0] [0, 0, 0, 1] =
     Inr [X 0, H 1, H 3, Measure 0, Measure 1, Measure 2, Measure 3]"
    by code_simp
  have r1: "ideal_run (4, []) [X 0, H 1, H 3, Measure 0, Measure 1, Measure 2, Measure 3] 1 =
     (\<lambda>i. List.member [X 0, H 1, H 3, Measure 0, Measure 1, Measure 2, Measure 3] (X i),
      (4, [[X 0, H 1, H 3, Measure 0, Measure 1, Measure 2, Measure 3]]))"
    by (simp add: ideal_run_def)
  have e: "map (\<lambda>i. of_bool (List.member [X 0, H 1, H 3, Measure 0, Measure 1, Measure 2, Measure 3] (X i)))
             [0..<4] = [1, 0, 0, 0 :: int]"
    by code_simp
  have c2: "bb84_circuit [1, 0, 0, 0] [0, 0, 0, 1] [0, 0, 1, 0] =
     Inr [X 0, H 3, H 2, Measure 0, Measure 1, Measure 2, Measure 3]"
    by code_simp
  have r2: "ideal_run (4, [[X 0, H 1, H 3, Measure 0, Measure 1, Measure 2, Measure 3]])
              [X 0, H 3, H 2, Measure 0, Measure 1, Measure 2, Measure 3] 1 =
     (\<lambda>i. List.member [X 0, H 3, H 2, Measure 0, Measure 1, Measure 2, Measure 3] (X i),
      (4, [[X 0, H 1, H 3, Measure 0, Measure 1, Measure 2, Measure 3],
           [X 0, H 3, H 2, Measure 0, Measure 1, Measure 2, Measure 3]]))"
    by (simp add: ideal_run_def)
  from eve_runs_simulator_twice [where run = ideal_run and repetitions = 1, OF d1 d2 d3 d4]
  obtain circuit1 result1 w5 eve_bits circuit2 result2 w6 b_bits where
    1: "bb84_circuit [1, 0, 0, 0] [0, 1, 0, 0] [0, 0, 0, 1] = Inr circuit1"
    and 2: "ideal_run (4, []) circuit1 1 = (result1, w5)"
    and 3: "eve_bits = map (\<lambda>i. of_bool (result1 i)) [0..<4]"
    and 4: "bb84_circuit eve_bits [0, 0, 0, 1] [0, 0, 1, 0] = Inr circuit2"
    and 5: "ideal_run w5 circuit2 1 = (result2, w6)"
    and 6: "b_bits = map (\<lambda>i. of_bool (result2 i)) [0..<4]"
    and 7: "key_exchange 4 True 1 (scripted_randint diagonal) ideal_run (0, []) =
        ([Line ''Initiating Quantum Key Exchange'',
          Line ''Circuit 1/2: '', Diagram circuit1,
          Line ''Circuit 2/2: '', Diagram circuit2,
          Line (''Quantum Key Exchange complete, sampling keys...'' @ [CHR 0x0A])],
         w6, Inr ([1, 0, 0, 0], [0, 1, 0, 0], [0, 0, 1, 0], b_bits))"
    by blast
  from 1 c1 have k1: "circuit1 = [X 0, H 1, H 3, Measure 0, Measure 1, Measure 2, Measure 3]"
    by simp
  from 2 r1 k1 have s1:
    "result1 = (\<lambda>i. List.member [X 0, H 1, H 3, Measure 0, Measure 1, Measure 2, Measure 3] (X i))"
    "w5 = (4, [[X 0, H 1, H 3, Measure 0, Measure 1, Measure 2, Measure 3]])"
    by simp_all
  from 3 s1 e have eb: "eve_bits = [1, 0, 0, 0]" by simp
  from 4 c2 eb have k2: "circuit2 = [X 0, H 3, H 2, Measure 0, Measure 1, Measure 2, Measure 3]"
    by simp
  from 5 r2 k2 s1 have s2:
    "result2 = (\<lambda>i. List.member [X 0, H 3, H 2, Measure 0, Measure 1, Measure 2, Measure 3] (X i))"
    "w6 = (4, [[X 0, H 1, H 3, Measure 0, Measure 1, Measure 2, Measure 3],
               [X 0, H 3, H 2, Measure 0, Measure 1, Measure 2, Measure 3]])"
    by simp_all
  have "map (\<lambda>i. of_bool (List.member [X 0, H 3, H 2, Measure 0, Measure 1, Measure 2, Measure 3] (X i)))
             [0..<4] = [1, 0, 0, 0 :: int]"
    by code_simp
  with 6 s2 have bb: "b_bits = [1, 0, 0, 0]" by simp
  from 7 s2 bb have "snd (key_exchange 4 True 1 (scripted_randint diagonal) ideal_run (0, [])) =
     ((4, [[X 0, H 1, H 3, Measure 0, Measure 1, Measure 2, Measure 3],
           [X 0, H 3, H 2, Measure 0, Measure 1, Measure 2, Measure 3]]),
      Inr ([1, 0, 0, 0], [0, 1, 0, 0], [0, 0, 1, 0], [1, 0, 0, 0]))"
    by simp
  with d1 d2 d3 d4 c1 c2 show ?thesis by simp
qed

subsection \<open>C10: bits after the last whole byte\<close>

text \<open>
  Claim C10. For every bit sequence whose length is not a multiple of 8,
  \<open>bits_to_string\<close> raises nothing and ignores the bits after the last whole group of
  eight: its result has one character for each whole group, the one that group stands
  for, and is the result for the sequence cut after the last whole group. A sequence of
  fewer than 8 bits decodes to the empty string.
\<close>

theorem bits_to_string_ignores_trailing_bits:
  assumes "list_all is_bit bits" and "length bits mod 8 \<noteq> 0"
  shows "\<exists>s.
      bits_to_string bits = Inr s \<and>
      length s = length bits div 8 \<and>
      (\<forall>b < length bits div 8. s ! b = decode_byte (slice bits (b * 8) ((b + 1) * 8))) \<and>
      bits_to_string (take (8 * (length bits div 8)) bits) = Inr s \<and>
      (length bits < 8 \<longrightarrow> s = [])"
proof -
  let ?n = "length bits div 8"
  let ?cut = "take (8 * ?n) bits"
  let ?s = "map (\<lambda>b. decode_byte (slice bits (b * 8) ((b + 1) * 8))) [0..<?n]"
  have whole: "bits_to_string bits = Inr ?s"
    using assms(1) by (rule bits_to_string_bits)
  have "list_all is_bit ?cut"
    using assms(1) by (auto simp: list_all_iff dest: in_set_takeD)
  then have "bits_to_string ?cut =
      Inr (map (\<lambda>b. decode_byte (slice ?cut (b * 8) ((b + 1) * 8))) [0..<length ?cut div 8])"
    by (rule bits_to_string_bits)
  moreover have "length ?cut div 8 = ?n"
    by simp
  moreover have "map (\<lambda>b. decode_byte (slice ?cut (b * 8) ((b + 1) * 8))) [0..<?n] = ?s"
  proof (rule map_cong [OF refl])
    fix b assume "b \<in> set [0..<?n]"
    then have "(b + 1) * 8 \<le> 8 * ?n" by simp
    then have "slice ?cut (b * 8) ((b + 1) * 8) = slice bits (b * 8) ((b + 1) * 8)"
      by (simp add: slice_def drop_take min_def)
    then show "decode_byte (slice ?cut (b * 8) ((b + 1) * 8)) =
               decode_byte (slice bits (b * 8) ((b + 1) * 8))"
      by simp
  qed
  ultimately have cut: "bits_to_string ?cut = Inr ?s"
    by simp
  have len: "length ?s = ?n"
    by simp
  have nth: "\<forall>b < ?n. ?s ! b = decode_byte (slice bits (b * 8) ((b + 1) * 8))"
    by simp
  have short: "length bits < 8 \<longrightarrow> ?s = []"
    by simp
  show ?thesis
    by (intro exI conjI) (rule whole len nth cut short)+
qed

theorem bits_to_string_ignores_trailing_bits_witness:
  "list_all is_bit [0, 1, 0, 0, 1, 0, 0, 0,  0, 1, 1] \<and>
   length [0, 1, 0, 0, 1, 0, 0, 0,  0, 1, 1 :: int] mod 8 \<noteq> 0 \<and>
   bits_to_string [0, 1, 0, 0, 1, 0, 0, 0,  0, 1, 1] = Inr [72] \<and>
   bits_to_string (take (8 * (length [0, 1, 0, 0, 1, 0, 0, 0,  0, 1, 1 :: int] div 8))
                     [0, 1, 0, 0, 1, 0, 0, 0,  0, 1, 1]) = Inr [72] \<and>
   bits_to_string [0, 1, 1] = Inr []"
proof -
  have b: "list_all is_bit [0, 1, 0, 0, 1, 0, 0, 0,  0, 1, 1]" by (simp add: is_bit_def)
  have m: "length [0, 1, 0, 0, 1, 0, 0, 0,  0, 1, 1 :: int] mod 8 \<noteq> 0" by simp
  have v: "bits_to_string [0, 1, 0, 0, 1, 0, 0, 0,  0, 1, 1] = Inr [72]" by code_simp
  from bits_to_string_ignores_trailing_bits [OF b m] v
  have c: "bits_to_string (take (8 * (length [0, 1, 0, 0, 1, 0, 0, 0,  0, 1, 1 :: int] div 8))
                     [0, 1, 0, 0, 1, 0, 0, 0,  0, 1, 1]) = Inr [72]"
    by auto
  have b3: "list_all is_bit [0, 1, 1]" by (simp add: is_bit_def)
  have m3: "length [0, 1, 1 :: int] mod 8 \<noteq> 0" by simp
  from bits_to_string_ignores_trailing_bits [OF b3 m3]
  have "bits_to_string [0, 1, 1] = Inr []"
    by auto
  with b m v c show ?thesis by blast
qed

end
